theory Spec2Isabelle
  imports Main "HOL-Library.Word"
begin

section \<open>Errors\<close>

text \<open>
  The abrupt exits of the two components, as values:
  \<^item> \<open>out_of_range\<close>: \<^verbatim>\<open>std::string::at\<close> called with an index past the end
    (\<^verbatim>\<open>std::out_of_range\<close>);
  \<^item> \<open>invalid_token\<close>: the tokenizer prints \<^verbatim>\<open>Invalid token\<close> and calls
    \<^verbatim>\<open>exit(EXIT_FAILURE)\<close>;
  \<^item> \<open>bad_alloc\<close>: \<^verbatim>\<open>throw std::bad_alloc {}\<close> in \<^verbatim>\<open>ArenaAllocator::alloc\<close>;
  \<^item> \<open>invalid_delete\<close>: \<^verbatim>\<open>delete[]\<close> of a pointer that is neither null nor a live
    block (undefined behaviour in C++, made a visible failure here).
\<close>

datatype error = out_of_range | invalid_token | bad_alloc | invalid_delete

definition bindE :: "error + 'a \<Rightarrow> ('a \<Rightarrow> error + 'b) \<Rightarrow> error + 'b" where
  "bindE m f = (case m of Inl e \<Rightarrow> Inl e | Inr x \<Rightarrow> f x)"

section \<open>Tokens (tokenization.hpp)\<close>

text \<open>
  \<^verbatim>\<open>enum class TokenType\<close>. The enumerators are prefixed with \<open>tk_\<close>, since
  \<open>let\<close>, \<open>plus\<close>, \<open>minus\<close> and \<open>eq\<close> are taken in HOL; \<open>if_\<close>, \<open>else_\<close> and
  \<open>for_\<close> lose their underscore.
\<close>

datatype TokenType =
    tk_exit
  | tk_int_lit
  | tk_semi
  | tk_open_paren
  | tk_close_paren
  | tk_ident
  | tk_let
  | tk_eq
  | tk_plus
  | tk_star
  | tk_minus
  | tk_fslash
  | tk_open_curly
  | tk_close_curly
  | tk_if
  | tk_elif
  | tk_else
  | tk_colon
  | tk_for

fun bin_prec :: "TokenType \<Rightarrow> int option" where
  "bin_prec tk_minus = Some 0"
| "bin_prec tk_plus = Some 0"
| "bin_prec tk_fslash = Some 1"
| "bin_prec tk_star = Some 1"
| "bin_prec _ = None"

text \<open>
  \<^verbatim>\<open>struct Token\<close>. The field \<^verbatim>\<open>value\<close> is called \<open>val\<close> here. \<^verbatim>\<open>int line\<close> is a
  32-bit word read as two's complement (\<open>sint\<close>).
\<close>

record Token =
  type :: TokenType
  line :: "32 word"
  val :: "string option"

section \<open>Character classes\<close>

text \<open>
  Modelled from the spec: \<^verbatim>\<open>std::isalpha\<close>, \<^verbatim>\<open>std::isdigit\<close>, \<^verbatim>\<open>std::isalnum\<close> and
  \<^verbatim>\<open>std::isspace\<close> belong to the C library, not to this repository. The spec says
  that character classification uses the ASCII alphanumeric and space predicates;
  these are the classes of the default C locale.
\<close>

definition isalpha :: "char \<Rightarrow> bool" where
  "isalpha c = (let n = (of_char c :: nat) in (65 \<le> n \<and> n \<le> 90) \<or> (97 \<le> n \<and> n \<le> 122))"

definition isdigit :: "char \<Rightarrow> bool" where
  "isdigit c = (let n = (of_char c :: nat) in 48 \<le> n \<and> n \<le> 57)"

definition isalnum :: "char \<Rightarrow> bool" where
  "isalnum c = (isalpha c \<or> isdigit c)"

definition isspace :: "char \<Rightarrow> bool" where
  "isspace c = (let n = (of_char c :: nat) in n = 32 \<or> (9 \<le> n \<and> n \<le> 13))"

section \<open>The tokenizer (tokenization.hpp)\<close>

text \<open>The members of \<^verbatim>\<open>class Tokenizer\<close>, and its constructor.\<close>

record Tokenizer =
  m_src :: string
  m_index :: nat

definition Tokenizer_new :: "string \<Rightarrow> Tokenizer" where
  "Tokenizer_new src = \<lparr>m_src = src, m_index = 0\<rparr>"

text \<open>
  \<^verbatim>\<open>peek\<close> checks the index before it reads; \<^verbatim>\<open>consume\<close> does not, so its
  \<^verbatim>\<open>m_src.at(m_index++)\<close> may throw.
\<close>

definition peek :: "Tokenizer \<Rightarrow> nat \<Rightarrow> char option" where
  "peek t offset =
     (if m_index t + offset \<ge> length (m_src t) then None
      else Some (m_src t ! (m_index t + offset)))"

definition consume :: "Tokenizer \<Rightarrow> error + (char \<times> Tokenizer)" where
  "consume t =
     (if m_index t < length (m_src t)
      then Inr (m_src t ! m_index t, t\<lparr>m_index := m_index t + 1\<rparr>)
      else Inl out_of_range)"

text \<open>The local variables of \<^verbatim>\<open>tokenize\<close>.\<close>

record locals =
  tokens :: "Token list"
  buf :: string
  line_count :: "32 word"

text \<open>
  Their initial values: \<^verbatim>\<open>std::vector<Token> tokens; std::string buf; int line_count = 1;\<close>
\<close>

definition locals_init :: locals where
  "locals_init = \<lparr>tokens = [], buf = [], line_count = 1\<rparr>"

lemma consume_advances:
  "consume t = Inr (c, t') \<Longrightarrow> m_src t' = m_src t \<and> m_index t' = Suc (m_index t) \<and> m_index t < length (m_src t)"
  by (auto simp: consume_def split: if_splits)

text \<open>
  The two accumulating loops
  \<^verbatim>\<open>while (peek().has_value() && std::isalnum(peek().value())) buf.push_back(consume());\<close>
  and the same with \<^verbatim>\<open>std::isdigit\<close>; \<open>P\<close> is the class tested.
\<close>

function push_while :: "(char \<Rightarrow> bool) \<Rightarrow> Tokenizer \<Rightarrow> string \<Rightarrow> error + (string \<times> Tokenizer)" where
  "push_while P t b =
     (case peek t 0 of
        None \<Rightarrow> Inr (b, t)
      | Some c \<Rightarrow>
          if P c then
            (case consume t of
               Inl e \<Rightarrow> Inl e
             | Inr (c', t') \<Rightarrow> push_while P t' (b @ [c']))
          else Inr (b, t))"
  by pat_completeness auto
termination
  by (relation "measure (\<lambda>(P, t, b). length (m_src t) - m_index t)")
     (auto dest!: consume_advances)

declare push_while.simps [simp del]

text \<open>
  The loop of a line comment:
  \<^verbatim>\<open>while (peek().has_value() && peek().value() != '\n') consume();\<close>
\<close>

function skip_line :: "Tokenizer \<Rightarrow> error + Tokenizer" where
  "skip_line t =
     (case peek t 0 of
        None \<Rightarrow> Inr t
      | Some c \<Rightarrow>
          if c \<noteq> CHR 0x0A then
            (case consume t of
               Inl e \<Rightarrow> Inl e
             | Inr (c', t') \<Rightarrow> skip_line t')
          else Inr t)"
  by pat_completeness auto
termination
  by (relation "measure (\<lambda>t. length (m_src t) - m_index t)")
     (auto dest!: consume_advances)

declare skip_line.simps [simp del]

text \<open>
  The loop of a block comment:
  \<^verbatim>\<open>while (peek().has_value()) {
      if (peek().value() == '*' && peek(1).has_value() && peek(1).value() == '/') break;
      consume();
  }\<close>
\<close>

function skip_block :: "Tokenizer \<Rightarrow> error + Tokenizer" where
  "skip_block t =
     (case peek t 0 of
        None \<Rightarrow> Inr t
      | Some c \<Rightarrow>
          if c = CHR ''*'' \<and> peek t 1 = Some (CHR ''/'') then Inr t
          else
            (case consume t of
               Inl e \<Rightarrow> Inl e
             | Inr (c', t') \<Rightarrow> skip_block t'))"
  by pat_completeness auto
termination
  by (relation "measure (\<lambda>t. length (m_src t) - m_index t)")
     (auto dest!: consume_advances)

declare skip_block.simps [simp del]

text \<open>\<^verbatim>\<open>if (peek().has_value()) { consume(); }\<close>\<close>

definition consume_if_any :: "Tokenizer \<Rightarrow> error + Tokenizer" where
  "consume_if_any t =
     (case peek t 0 of
        None \<Rightarrow> Inr t
      | Some c \<Rightarrow> bindE (consume t) (\<lambda>(c', t'). Inr t'))"

text \<open>\<^verbatim>\<open>tokens.push_back({ ty, line_count })\<close> and \<^verbatim>\<open>tokens.push_back({ ty, line_count, buf })\<close>.\<close>

definition push_token :: "TokenType \<Rightarrow> locals \<Rightarrow> locals" where
  "push_token ty l = l\<lparr>tokens := tokens l @ [\<lparr>type = ty, line = line_count l, val = None\<rparr>]\<rparr>"

definition push_token_buf :: "TokenType \<Rightarrow> locals \<Rightarrow> locals" where
  "push_token_buf ty l =
     l\<lparr>tokens := tokens l @ [\<lparr>type = ty, line = line_count l, val = Some (buf l)\<rparr>]\<rparr>"

definition buf_clear :: "locals \<Rightarrow> locals" where
  "buf_clear l = l\<lparr>buf := []\<rparr>"

text \<open>
  The chain \<^verbatim>\<open>if (buf == "exit") ... else if (buf == "let") ... else ...\<close> that follows
  the alphanumeric run.
\<close>

definition classify_word :: "locals \<Rightarrow> locals" where
  "classify_word l =
     (if buf l = ''exit'' then buf_clear (push_token tk_exit l)
      else if buf l = ''let'' then buf_clear (push_token tk_let l)
      else if buf l = ''if'' then buf_clear (push_token tk_if l)
      else if buf l = ''elif'' then buf_clear (push_token tk_elif l)
      else if buf l = ''else'' then buf_clear (push_token tk_else l)
      else if buf l = ''for'' then buf_clear (push_token tk_for l)
      else buf_clear (push_token_buf tk_ident l))"

text \<open>The branch \<^verbatim>\<open>if (std::isalpha(peek().value()))\<close>.\<close>

definition scan_word :: "Tokenizer \<Rightarrow> locals \<Rightarrow> error + (Tokenizer \<times> locals)" where
  "scan_word t l =
     bindE (consume t) (\<lambda>(c, t1).
     bindE (push_while isalnum t1 (buf l @ [c])) (\<lambda>(b, t2).
       Inr (t2, classify_word (l\<lparr>buf := b\<rparr>))))"

text \<open>The branch \<^verbatim>\<open>else if (std::isdigit(peek().value()))\<close>.\<close>

definition scan_number :: "Tokenizer \<Rightarrow> locals \<Rightarrow> error + (Tokenizer \<times> locals)" where
  "scan_number t l =
     bindE (consume t) (\<lambda>(c, t1).
     bindE (push_while isdigit t1 (buf l @ [c])) (\<lambda>(b, t2).
       Inr (t2, buf_clear (push_token_buf tk_int_lit (l\<lparr>buf := b\<rparr>)))))"

text \<open>The branch of \<^verbatim>\<open>//\<close>: two \<^verbatim>\<open>consume()\<close>, then the loop.\<close>

definition scan_line_comment :: "Tokenizer \<Rightarrow> locals \<Rightarrow> error + (Tokenizer \<times> locals)" where
  "scan_line_comment t l =
     bindE (consume t) (\<lambda>(c1, t1).
     bindE (consume t1) (\<lambda>(c2, t2).
     bindE (skip_line t2) (\<lambda>t3. Inr (t3, l))))"

text \<open>
  The branch of \<^verbatim>\<open>/*\<close>: two \<^verbatim>\<open>consume()\<close>, the loop, then two guarded
  \<^verbatim>\<open>consume()\<close> for the closing \<^verbatim>\<open>*/\<close>. \<^verbatim>\<open>line_count\<close> is not touched.
\<close>

definition scan_block_comment :: "Tokenizer \<Rightarrow> locals \<Rightarrow> error + (Tokenizer \<times> locals)" where
  "scan_block_comment t l =
     bindE (consume t) (\<lambda>(c1, t1).
     bindE (consume t1) (\<lambda>(c2, t2).
     bindE (skip_block t2) (\<lambda>t3.
     bindE (consume_if_any t3) (\<lambda>t4.
     bindE (consume_if_any t4) (\<lambda>t5. Inr (t5, l))))))"

text \<open>A single-character lexeme: \<^verbatim>\<open>consume(); tokens.push_back({ ty, line_count });\<close>\<close>

definition scan_single :: "TokenType \<Rightarrow> Tokenizer \<Rightarrow> locals \<Rightarrow> error + (Tokenizer \<times> locals)" where
  "scan_single ty t l = bindE (consume t) (\<lambda>(c, t1). Inr (t1, push_token ty l))"

text \<open>
  \<^verbatim>\<open>consume(); line_count++;\<close> The increment of the \<^verbatim>\<open>int\<close> wraps around from
  \<open>2^31 - 1\<close> to \<open>- 2^31\<close>, as the compiled code does (the overflow of a signed
  integer is undefined in C++).
\<close>

definition scan_newline :: "Tokenizer \<Rightarrow> locals \<Rightarrow> error + (Tokenizer \<times> locals)" where
  "scan_newline t l = bindE (consume t) (\<lambda>(c, t1). Inr (t1, l\<lparr>line_count := line_count l + 1\<rparr>))"

text \<open>\<^verbatim>\<open>consume();\<close> for the other white space.\<close>

definition scan_space :: "Tokenizer \<Rightarrow> locals \<Rightarrow> error + (Tokenizer \<times> locals)" where
  "scan_space t l = bindE (consume t) (\<lambda>(c, t1). Inr (t1, l))"

text \<open>
  The body of the main loop, entered with \<open>c = peek().value()\<close>; the branches are in the
  order of the source.
\<close>

definition tokenize_body :: "char \<Rightarrow> Tokenizer \<Rightarrow> locals \<Rightarrow> error + (Tokenizer \<times> locals)" where
  "tokenize_body c t l =
     (if isalpha c then scan_word t l
      else if isdigit c then scan_number t l
      else if c = CHR ''/'' \<and> peek t 1 = Some (CHR ''/'') then scan_line_comment t l
      else if c = CHR ''/'' \<and> peek t 1 = Some (CHR ''*'') then scan_block_comment t l
      else if c = CHR ''('' then scan_single tk_open_paren t l
      else if c = CHR '')'' then scan_single tk_close_paren t l
      else if c = CHR '';'' then scan_single tk_semi t l
      else if c = CHR ''='' then scan_single tk_eq t l
      else if c = CHR ''+'' then scan_single tk_plus t l
      else if c = CHR ''*'' then scan_single tk_star t l
      else if c = CHR ''-'' then scan_single tk_minus t l
      else if c = CHR ''/'' then scan_single tk_fslash t l
      else if c = CHR ''{'' then scan_single tk_open_curly t l
      else if c = CHR ''}'' then scan_single tk_close_curly t l
      else if c = CHR '':'' then scan_single tk_colon t l
      else if c = CHR 0x0A then scan_newline t l
      else if isspace c then scan_space t l
      else Inl invalid_token)"

section \<open>Every step of the scan advances the cursor\<close>

lemma bindE_Inr_iff:
  "bindE m f = Inr y \<longleftrightarrow> (\<exists>x. m = Inr x \<and> f x = Inr y)"
  by (cases m) (auto simp: bindE_def)

lemma bindE_Inl_iff:
  "bindE m f = Inl e \<longleftrightarrow> (m = Inl e \<or> (\<exists>x. m = Inr x \<and> f x = Inl e))"
  by (cases m) (auto simp: bindE_def)

lemma push_while_advances:
  "push_while P t b = Inr (b', t') \<Longrightarrow> m_src t' = m_src t \<and> m_index t \<le> m_index t'"
proof (induction P t b rule: push_while.induct)
  case (1 P t b)
  show ?case
  proof (cases "peek t 0")
    case None
    with "1.prems" show ?thesis by (simp add: push_while.simps[of P t b])
  next
    case (Some c)
    show ?thesis
    proof (cases "P c")
      case False
      with Some "1.prems" show ?thesis by (simp add: push_while.simps[of P t b])
    next
      case True
      with Some "1.prems" obtain c' t1 where c: "consume t = Inr (c', t1)"
        and r: "push_while P t1 (b @ [c']) = Inr (b', t')"
        by (auto simp: push_while.simps[of P t b] split: sum.splits)
      from "1.IH"[OF Some True c refl r] consume_advances[OF c] show ?thesis by simp
    qed
  qed
qed

lemma skip_line_advances:
  "skip_line t = Inr t' \<Longrightarrow> m_src t' = m_src t \<and> m_index t \<le> m_index t'"
proof (induction t rule: skip_line.induct)
  case (1 t)
  show ?case
  proof (cases "peek t 0")
    case None
    with "1.prems" show ?thesis by (simp add: skip_line.simps[of t])
  next
    case (Some c)
    show ?thesis
    proof (cases "c \<noteq> CHR 0x0A")
      case False
      with Some "1.prems" show ?thesis by (simp add: skip_line.simps[of t])
    next
      case True
      with Some "1.prems" obtain c' t1 where c: "consume t = Inr (c', t1)"
        and r: "skip_line t1 = Inr t'"
        by (auto simp: skip_line.simps[of t] split: sum.splits)
      from "1.IH"[OF Some True c refl r] consume_advances[OF c] show ?thesis by simp
    qed
  qed
qed

lemma skip_block_advances:
  "skip_block t = Inr t' \<Longrightarrow> m_src t' = m_src t \<and> m_index t \<le> m_index t'"
proof (induction t rule: skip_block.induct)
  case (1 t)
  show ?case
  proof (cases "peek t 0")
    case None
    with "1.prems" show ?thesis by (simp add: skip_block.simps[of t])
  next
    case (Some c)
    show ?thesis
    proof (cases "c = CHR ''*'' \<and> peek t 1 = Some (CHR ''/'')")
      case True
      with Some "1.prems" show ?thesis by (simp add: skip_block.simps[of t])
    next
      case False
      with Some "1.prems" obtain c' t1 where c: "consume t = Inr (c', t1)"
        and r: "skip_block t1 = Inr t'"
        by (auto simp: skip_block.simps[of t] split: sum.splits)
      from "1.IH"[OF Some False c refl r] consume_advances[OF c] show ?thesis by simp
    qed
  qed
qed

lemma consume_if_any_advances:
  "consume_if_any t = Inr t' \<Longrightarrow> m_src t' = m_src t \<and> m_index t \<le> m_index t'"
  by (auto simp: consume_if_any_def bindE_Inr_iff split: option.splits dest!: consume_advances)

lemma scan_word_advances:
  "scan_word t l = Inr (t', l') \<Longrightarrow> m_src t' = m_src t \<and> m_index t < m_index t'"
  by (auto simp: scan_word_def bindE_Inr_iff dest!: consume_advances push_while_advances)

lemma scan_number_advances:
  "scan_number t l = Inr (t', l') \<Longrightarrow> m_src t' = m_src t \<and> m_index t < m_index t'"
  by (auto simp: scan_number_def bindE_Inr_iff dest!: consume_advances push_while_advances)

lemma scan_line_comment_advances:
  "scan_line_comment t l = Inr (t', l') \<Longrightarrow> m_src t' = m_src t \<and> m_index t < m_index t'"
  by (auto simp: scan_line_comment_def bindE_Inr_iff dest!: consume_advances skip_line_advances)

lemma scan_block_comment_advances:
  "scan_block_comment t l = Inr (t', l') \<Longrightarrow> m_src t' = m_src t \<and> m_index t < m_index t'"
  by (auto simp: scan_block_comment_def bindE_Inr_iff
      dest!: consume_advances skip_block_advances consume_if_any_advances)

lemma scan_single_advances:
  "scan_single ty t l = Inr (t', l') \<Longrightarrow> m_src t' = m_src t \<and> m_index t < m_index t'"
  by (auto simp: scan_single_def bindE_Inr_iff dest!: consume_advances)

lemma scan_newline_advances:
  "scan_newline t l = Inr (t', l') \<Longrightarrow> m_src t' = m_src t \<and> m_index t < m_index t'"
  by (auto simp: scan_newline_def bindE_Inr_iff dest!: consume_advances)

lemma scan_space_advances:
  "scan_space t l = Inr (t', l') \<Longrightarrow> m_src t' = m_src t \<and> m_index t < m_index t'"
  by (auto simp: scan_space_def bindE_Inr_iff dest!: consume_advances)

lemma tokenize_body_advances:
  "tokenize_body c t l = Inr (t', l') \<Longrightarrow> m_src t' = m_src t \<and> m_index t < m_index t'"
  unfolding tokenize_body_def
  by (simp split: if_splits;
      erule scan_word_advances scan_number_advances scan_line_comment_advances
        scan_block_comment_advances scan_single_advances scan_newline_advances
        scan_space_advances)

text \<open>
  The main loop \<^verbatim>\<open>while (peek().has_value()) { ... }\<close>. Every branch of the body
  consumes at least one character, which is what makes the loop terminate.
\<close>

function tokenize_loop :: "Tokenizer \<Rightarrow> locals \<Rightarrow> error + (Tokenizer \<times> locals)" where
  "tokenize_loop t l =
     (case peek t 0 of
        None \<Rightarrow> Inr (t, l)
      | Some c \<Rightarrow>
          (case tokenize_body c t l of
             Inl e \<Rightarrow> Inl e
           | Inr (t', l') \<Rightarrow> tokenize_loop t' l'))"
  by pat_completeness auto
termination
  by (relation "measure (\<lambda>(t, l). length (m_src t) - m_index t)")
     (auto dest!: tokenize_body_advances simp: peek_def split: if_splits)

declare tokenize_loop.simps [simp del]

text \<open>
  \<^verbatim>\<open>tokenize\<close>: the locals are initialised, the loop runs, \<^verbatim>\<open>m_index\<close> is reset and
  the tokens are returned.
\<close>

definition tokenize :: "Tokenizer \<Rightarrow> error + (Token list \<times> Tokenizer)" where
  "tokenize t =
     bindE (tokenize_loop t locals_init) (\<lambda>(t', l').
       Inr (tokens l', t'\<lparr>m_index := 0\<rparr>))"

section \<open>The arena (arena.hpp)\<close>

text \<open>
  A pointer is the address it holds, a natural number; \<^verbatim>\<open>nullptr\<close> is 0. The members
  of \<^verbatim>\<open>class ArenaAllocator\<close>: the size of the buffer, its first byte and the cursor.
  \<^verbatim>\<open>size_t\<close> and the addresses are not cut to 64 bits: a buffer that \<^verbatim>\<open>new\<close> returned
  lies inside the address space, and under \<open>arena_inv\<close> below no subtraction of the
  code goes below zero.
\<close>

record ArenaAllocator =
  m_size :: nat
  m_buffer :: nat
  m_offset :: nat

text \<open>The free store: the addresses of the blocks that \<^verbatim>\<open>new[]\<close> gave and that are still live.\<close>

type_synonym heap = "nat set"

text \<open>
  The constructor. \<open>p\<close> is the address of the block that
  \<^verbatim>\<open>new std::byte[max_num_bytes]\<close> returned.
\<close>

definition ArenaAllocator_new :: "nat \<Rightarrow> nat \<Rightarrow> heap \<Rightarrow> ArenaAllocator \<times> heap" where
  "ArenaAllocator_new max_num_bytes p h =
     (\<lparr>m_size = max_num_bytes, m_buffer = p, m_offset = p\<rparr>, insert p h)"

text \<open>
  The move constructor: each member is taken with \<^verbatim>\<open>std::exchange\<close>, which leaves 0 or
  \<^verbatim>\<open>nullptr\<close> behind. The result is the new object and \<^verbatim>\<open>other\<close> afterwards.
\<close>

definition move_construct :: "ArenaAllocator \<Rightarrow> ArenaAllocator \<times> ArenaAllocator" where
  "move_construct other =
     (\<lparr>m_size = m_size other, m_buffer = m_buffer other, m_offset = m_offset other\<rparr>,
      other\<lparr>m_size := 0, m_buffer := 0, m_offset := 0\<rparr>)"

text \<open>
  Move assignment: three \<^verbatim>\<open>std::swap\<close>. The result is \<^verbatim>\<open>*this\<close> and \<^verbatim>\<open>other\<close>
  afterwards.
\<close>

definition move_assign :: "ArenaAllocator \<Rightarrow> ArenaAllocator \<Rightarrow> ArenaAllocator \<times> ArenaAllocator" where
  "move_assign this other =
     (this\<lparr>m_size := m_size other, m_buffer := m_buffer other, m_offset := m_offset other\<rparr>,
      other\<lparr>m_size := m_size this, m_buffer := m_buffer this, m_offset := m_offset this\<rparr>)"

text \<open>
  \<^verbatim>\<open>delete[] p\<close>: nothing for a null pointer, the end of a live block otherwise.
\<close>

definition delete_array :: "nat \<Rightarrow> heap \<Rightarrow> error + heap" where
  "delete_array p h =
     (if p = 0 then Inr h
      else if p \<in> h then Inr (h - {p})
      else Inl invalid_delete)"

text \<open>The destructor: \<^verbatim>\<open>delete[] m_buffer\<close>.\<close>

definition destroy :: "ArenaAllocator \<Rightarrow> heap \<Rightarrow> error + heap" where
  "destroy a h = delete_array (m_buffer a) h"

text \<open>A type \<^verbatim>\<open>T\<close> is what \<^verbatim>\<open>alloc<T>\<close> uses of it: \<^verbatim>\<open>sizeof(T)\<close> and \<^verbatim>\<open>alignof(T)\<close>.\<close>

record ctype =
  sizeof :: nat
  alignof :: nat

text \<open>
  Modelled from the spec: \<^verbatim>\<open>std::align\<close> belongs to the C++ library, not to this
  repository. The spec has it compute an address within the remaining region that
  satisfies the alignment, with enough trailing room for the size, and fail when no
  such address exists before the end. As in the library, the address is the first
  multiple of the alignment at or after \<open>ptr\<close>; the result is the returned pointer
  (0 for \<^verbatim>\<open>nullptr\<close>) with the new values of the two reference parameters.
\<close>

definition std_align :: "nat \<Rightarrow> nat \<Rightarrow> nat \<Rightarrow> nat \<Rightarrow> nat \<times> nat \<times> nat" where
  "std_align alignment sz ptr space =
     (if space < sz then (0, ptr, space)
      else
        let aligned = ((ptr + alignment - 1) div alignment) * alignment;
            diff = aligned - ptr
        in if diff > space - sz then (0, ptr, space)
           else (aligned, aligned, space - diff))"

text \<open>
  \<^verbatim>\<open>alloc<T>\<close>. The result is what the call gives (the address, or the exception)
  and the arena afterwards: the members are untouched when it throws, since
  \<^verbatim>\<open>std::align\<close> works on the two locals.
\<close>

definition alloc :: "ctype \<Rightarrow> ArenaAllocator \<Rightarrow> (error + nat) \<times> ArenaAllocator" where
  "alloc T a =
     (let remaining_num_bytes = m_size a - (m_offset a - m_buffer a);
          pointer = m_offset a;
          (aligned_address, pointer', remaining') =
             std_align (alignof T) (sizeof T) pointer remaining_num_bytes
      in if aligned_address = 0 then (Inl bad_alloc, a)
         else (Inr aligned_address, a\<lparr>m_offset := aligned_address + sizeof T\<rparr>))"

text \<open>
  \<^verbatim>\<open>emplace<T>\<close>: \<^verbatim>\<open>alloc<T>\<close>, then the value \<open>v\<close> (that is \<^verbatim>\<open>T { args... }\<close>) is
  constructed at the address. The objects placed so far are a map from addresses.
\<close>

definition emplace :: "ctype \<Rightarrow> 'v \<Rightarrow> ArenaAllocator \<Rightarrow> (nat \<rightharpoonup> 'v) \<Rightarrow> (error + nat) \<times> ArenaAllocator \<times> (nat \<rightharpoonup> 'v)" where
  "emplace T v a mem =
     (case alloc T a of
        (Inl e, a') \<Rightarrow> (Inl e, a', mem)
      | (Inr allocated_memory, a') \<Rightarrow> (Inr allocated_memory, a', mem(allocated_memory \<mapsto> v)))"

text \<open>
  A caller's sequence of requests, each \<^verbatim>\<open>alloc<T>()\<close> or \<^verbatim>\<open>emplace<T>(args...)\<close>, run in
  order on one arena; the results are kept in order. A request that throws leaves the
  arena as it was, and the caller goes on.
\<close>

datatype 'v request = Alloc ctype | Emplace ctype 'v

fun request_type :: "'v request \<Rightarrow> ctype" where
  "request_type (Alloc T) = T"
| "request_type (Emplace T v) = T"

fun run_request :: "'v request \<Rightarrow> ArenaAllocator \<times> (nat \<rightharpoonup> 'v) \<Rightarrow> (error + nat) \<times> ArenaAllocator \<times> (nat \<rightharpoonup> 'v)" where
  "run_request (Alloc T) (a, mem) = (case alloc T a of (r, a') \<Rightarrow> (r, a', mem))"
| "run_request (Emplace T v) (a, mem) = emplace T v a mem"

fun run_requests :: "'v request list \<Rightarrow> ArenaAllocator \<times> (nat \<rightharpoonup> 'v) \<Rightarrow> (error + nat) list \<times> ArenaAllocator \<times> (nat \<rightharpoonup> 'v)" where
  "run_requests [] s = ([], s)"
| "run_requests (x # xs) s =
     (case run_request x s of
        (r, s') \<Rightarrow> (case run_requests xs s' of (rs, s'') \<Rightarrow> (r # rs, s'')))"

text \<open>
  What every arena satisfies that was constructed and then moved and used through the
  operations above: the cursor lies in the buffer, and a null buffer has size 0.
\<close>

definition arena_inv :: "ArenaAllocator \<Rightarrow> bool" where
  "arena_inv a \<longleftrightarrow>
     m_buffer a \<le> m_offset a \<and> m_offset a \<le> m_buffer a + m_size a \<and>
     (m_buffer a = 0 \<longrightarrow> m_size a = 0)"

text \<open>The types of C++: a size of at least one byte, an alignment that is a power of two.\<close>

definition ctype_ok :: "ctype \<Rightarrow> bool" where
  "ctype_ok T \<longleftrightarrow> 0 < sizeof T \<and> (\<exists>k. alignof T = 2 ^ k)"

text \<open>
  The words of the spec for a request that can be served: some address at or after
  the cursor satisfies the alignment and leaves \<^verbatim>\<open>sizeof(T)\<close> bytes before the end of
  the buffer.
\<close>

definition fits :: "ctype \<Rightarrow> ArenaAllocator \<Rightarrow> bool" where
  "fits T a \<longleftrightarrow>
     (\<exists>addr \<in> {m_offset a .. m_buffer a + m_size a}.
        alignof T dvd addr \<and> addr + sizeof T \<le> m_buffer a + m_size a)"

section \<open>Notions used in the statements\<close>

text \<open>
  The number of characters of a text before its first \<^verbatim>\<open>*/\<close>, or its length when it
  has none: what the loop of a block comment skips.
\<close>

fun close_pos :: "string \<Rightarrow> nat" where
  "close_pos [] = 0"
| "close_pos [c] = 1"
| "close_pos (c # d # cs) = (if c = CHR ''*'' \<and> d = CHR ''/'' then 0 else Suc (close_pos (d # cs)))"

text \<open>
  Where the scan stands after a block comment opened at index \<open>i\<close> of \<open>s\<close>: past the
  closing \<^verbatim>\<open>*/\<close>, or at the end of the text.
\<close>

definition block_end :: "string \<Rightarrow> nat \<Rightarrow> nat" where
  "block_end s i =
     (let j = i + 2 + close_pos (drop (i + 2) s)
      in if Suc j < length s then j + 2 else if j < length s then j + 1 else j)"

text \<open>
  The words of the spec for an alphabetic-start run: the reserved spellings give their
  keyword and no payload, every other run is an identifier carrying the run. The
  single-character lexemes are a table too.
\<close>

definition keyword_of :: "string \<Rightarrow> TokenType option" where
  "keyword_of = map_of
     [(''exit'', tk_exit), (''let'', tk_let), (''if'', tk_if),
      (''elif'', tk_elif), (''else'', tk_else), (''for'', tk_for)]"

definition spec_word_token :: "string \<Rightarrow> 32 word \<Rightarrow> Token" where
  "spec_word_token w ln =
     (case keyword_of w of
        Some k \<Rightarrow> \<lparr>type = k, line = ln, val = None\<rparr>
      | None \<Rightarrow> \<lparr>type = tk_ident, line = ln, val = Some w\<rparr>)"

definition single_lexeme :: "char \<Rightarrow> TokenType option" where
  "single_lexeme = map_of
     [(CHR ''('', tk_open_paren), (CHR '')'', tk_close_paren), (CHR '';'', tk_semi),
      (CHR ''='', tk_eq), (CHR ''+'', tk_plus), (CHR ''*'', tk_star), (CHR ''-'', tk_minus),
      (CHR ''/'', tk_fslash), (CHR ''{'', tk_open_curly), (CHR ''}'', tk_close_curly),
      (CHR '':'', tk_colon)]"

text \<open>What one pass of the loop body may do to the cursor: fail as invalid, or move forward inside the text.\<close>

definition step_safe :: "Tokenizer \<Rightarrow> error + (Tokenizer \<times> locals) \<Rightarrow> bool" where
  "step_safe t r \<longleftrightarrow>
     (case r of
        Inl e \<Rightarrow> e = invalid_token
      | Inr (t', l') \<Rightarrow> m_src t' = m_src t \<and> m_index t < m_index t' \<and> m_index t' \<le> length (m_src t))"

text \<open>
  A text contains a closing \<^verbatim>\<open>*/\<close>; a text contains a comment opener \<^verbatim>\<open>//\<close> or
  \<^verbatim>\<open>/*\<close>; a character belongs to one of the categories the scan recognizes (the
  comment openers begin with \<^verbatim>\<open>/\<close>, a single-character lexeme).
\<close>

fun contains_close :: "string \<Rightarrow> bool" where
  "contains_close (c # d # cs) = ((c = CHR ''*'' \<and> d = CHR ''/'') \<or> contains_close (d # cs))"
| "contains_close _ = False"



text \<open>The first multiple of \<open>al\<close> at or after \<open>p\<close>.\<close>

definition align_up :: "nat \<Rightarrow> nat \<Rightarrow> nat" where
  "align_up al p = ((p + al - 1) div al) * al"

text \<open>
  A token is well formed when it has a payload exactly if it is an identifier or an
  integer literal, and the payload is not empty. Between two passes of the loop body
  the buffer is empty and the tokens are well formed (\<open>payload_ok\<close>). As long as the line
  counter has not wrapped around, it is at least 1 and at most 1 plus the number of
  newlines before the cursor, and the line numbers of the tokens never decrease and lie
  between 1 and the counter (\<open>lines_ok\<close>).
\<close>

definition token_ok :: "Token \<Rightarrow> bool" where
  "token_ok tk \<longleftrightarrow>
     ((val tk \<noteq> None) = (type tk = tk_ident \<or> type tk = tk_int_lit)) \<and> val tk \<noteq> Some []"

definition payload_ok :: "locals \<Rightarrow> bool" where
  "payload_ok l \<longleftrightarrow> buf l = [] \<and> (\<forall>tk \<in> set (tokens l). token_ok tk)"

definition lines_ok :: "Tokenizer \<Rightarrow> locals \<Rightarrow> bool" where
  "lines_ok t l \<longleftrightarrow>
     1 \<le> sint (line_count l) \<and>
     sint (line_count l) \<le> 1 + int (count_list (take (m_index t) (m_src t)) (CHR 0x0A)) \<and>
     sorted (map (\<lambda>tk. sint (line tk)) (tokens l)) \<and>
     (\<forall>tk \<in> set (tokens l). 1 \<le> sint (line tk) \<and> sint (line tk) \<le> sint (line_count l))"

text \<open>
  The states of the main loop: \<open>reaches s (t, l)\<close> says that the loop, started in state
  \<open>s\<close>, stands at the head of a pass with the tokenizer \<open>t\<close> and the locals \<open>l\<close>, after
  some number of passes of its body, none of which failed.
\<close>

inductive reaches :: "Tokenizer \<times> locals \<Rightarrow> Tokenizer \<times> locals \<Rightarrow> bool" where
  here: "reaches s s"
| step: "reaches s (t, l) \<Longrightarrow> peek t 0 = Some c \<Longrightarrow> tokenize_body c t l = Inr (t', l') \<Longrightarrow>
         reaches s (t', l')"

text \<open>
  The tokens that the loop gives for a text \<open>s\<close> on its own, scanned from its first
  character with the line counter at \<open>ln\<close> and no token yet.
\<close>

definition scan_text :: "string \<Rightarrow> 32 word \<Rightarrow> error + Token list" where
  "scan_text s ln =
     (case tokenize_loop (Tokenizer_new s) \<lparr>tokens = [], buf = [], line_count = ln\<rparr> of
        Inl e \<Rightarrow> Inl e
      | Inr (t', l') \<Rightarrow> Inr (tokens l'))"

text \<open>
  Two ways to transport a result of the loop: tokens put in front of the ones it
  returns, and a text put in front of the one it scans.
\<close>

definition prepend_tokens :: "Token list \<Rightarrow> error + (Tokenizer \<times> locals) \<Rightarrow> error + (Tokenizer \<times> locals)" where
  "prepend_tokens ts r =
     (case r of Inl e \<Rightarrow> Inl e | Inr (t', l') \<Rightarrow> Inr (t', l'\<lparr>tokens := ts @ tokens l'\<rparr>))"

definition shift :: "string \<Rightarrow> Tokenizer \<Rightarrow> Tokenizer" where
  "shift pre t = t\<lparr>m_src := pre @ m_src t, m_index := length pre + m_index t\<rparr>"

definition shift_result :: "string \<Rightarrow> error + (Tokenizer \<times> locals) \<Rightarrow> error + (Tokenizer \<times> locals)" where
  "shift_result pre r =
     (case r of Inl e \<Rightarrow> Inl e | Inr (t', l') \<Rightarrow> Inr (shift pre t', l'))"

section \<open>What the loops of the tokenizer compute\<close>

lemma bindE_Inr [simp]: "bindE (Inr x) f = f x"
  by (simp add: bindE_def)

lemma bindE_Inl [simp]: "bindE (Inl e) f = Inl e"
  by (simp add: bindE_def)

lemma peek_0: "peek t 0 = (if m_index t < length (m_src t) then Some (m_src t ! m_index t) else None)"
  by (simp add: peek_def)

lemma peek_1: "peek t (Suc 0) = (if Suc (m_index t) < length (m_src t) then Some (m_src t ! Suc (m_index t)) else None)"
  by (simp add: peek_def)

lemma consume_eq:
  "m_index t < length (m_src t) \<Longrightarrow> consume t = Inr (m_src t ! m_index t, t\<lparr>m_index := Suc (m_index t)\<rparr>)"
  by (simp add: consume_def)

lemma push_while_eq:
  "push_while P t b =
     Inr (b @ takeWhile P (drop (m_index t) (m_src t)),
          t\<lparr>m_index := m_index t + length (takeWhile P (drop (m_index t) (m_src t)))\<rparr>)"
proof (induction P t b rule: push_while.induct)
  case (1 P t b)
  show ?case
  proof (cases "m_index t < length (m_src t)")
    case False
    then show ?thesis by (simp add: push_while.simps[of P t b] peek_0)
  next
    case True
    note inb = this
    then have d: "drop (m_index t) (m_src t) = m_src t ! m_index t # drop (Suc (m_index t)) (m_src t)"
      by (simp add: Cons_nth_drop_Suc)
    show ?thesis
    proof (cases "P (m_src t ! m_index t)")
      case False
      with inb d show ?thesis by (simp add: push_while.simps[of P t b] peek_0)
    next
      case True
      from inb have p: "peek t 0 = Some (m_src t ! m_index t)" by (simp add: peek_0)
      from "1.IH"[OF p True consume_eq[OF inb] refl] inb True d
      show ?thesis by (simp add: push_while.simps[of P t b] peek_0 consume_eq)
    qed
  qed
qed

lemma skip_line_eq:
  "skip_line t =
     Inr (t\<lparr>m_index := m_index t + length (takeWhile (\<lambda>c. c \<noteq> CHR 0x0A) (drop (m_index t) (m_src t)))\<rparr>)"
proof (induction t rule: skip_line.induct)
  case (1 t)
  show ?case
  proof (cases "m_index t < length (m_src t)")
    case False
    then show ?thesis by (simp add: skip_line.simps[of t] peek_0)
  next
    case True
    note inb = this
    then have d: "drop (m_index t) (m_src t) = m_src t ! m_index t # drop (Suc (m_index t)) (m_src t)"
      by (simp add: Cons_nth_drop_Suc)
    show ?thesis
    proof (cases "m_src t ! m_index t \<noteq> CHR 0x0A")
      case False
      with inb d show ?thesis by (simp add: skip_line.simps[of t] peek_0)
    next
      case True
      from inb have p: "peek t 0 = Some (m_src t ! m_index t)" by (simp add: peek_0)
      from "1.IH"[OF p True consume_eq[OF inb] refl] inb True d
      show ?thesis by (simp add: skip_line.simps[of t] peek_0 consume_eq)
    qed
  qed
qed

lemma close_pos_drop:
  "i < length s \<Longrightarrow>
   close_pos (drop i s) =
     (if s ! i = CHR ''*'' \<and> Suc i < length s \<and> s ! Suc i = CHR ''/'' then 0
      else Suc (close_pos (drop (Suc i) s)))"
proof -
  assume inb: "i < length s"
  then have d: "drop i s = s ! i # drop (Suc i) s" by (simp add: Cons_nth_drop_Suc)
  show ?thesis
  proof (cases "Suc i < length s")
    case True
    then have "drop (Suc i) s = s ! Suc i # drop (Suc (Suc i)) s" by (simp add: Cons_nth_drop_Suc)
    with d True show ?thesis by simp
  next
    case False
    with inb have "drop (Suc i) s = []" by simp
    with d False show ?thesis by simp
  qed
qed

lemma skip_block_eq:
  "skip_block t = Inr (t\<lparr>m_index := m_index t + close_pos (drop (m_index t) (m_src t))\<rparr>)"
proof (induction t rule: skip_block.induct)
  case (1 t)
  show ?case
  proof (cases "m_index t < length (m_src t)")
    case False
    then show ?thesis by (simp add: skip_block.simps[of t] peek_0)
  next
    case True
    note inb = this
    show ?thesis
    proof (cases "m_src t ! m_index t = CHR ''*'' \<and> peek t 1 = Some (CHR ''/'')")
      case True
      with inb show ?thesis
        by (simp add: skip_block.simps[of t] peek_0 peek_1 close_pos_drop split: if_splits)
    next
      case False
      from inb have p: "peek t 0 = Some (m_src t ! m_index t)" by (simp add: peek_0)
      from inb False have step: "skip_block t = skip_block (t\<lparr>m_index := Suc (m_index t)\<rparr>)"
        by (auto simp: skip_block.simps[of t] peek_0 consume_eq)
      from "1.IH"[OF p False consume_eq[OF inb] refl]
      have ih: "skip_block (t\<lparr>m_index := Suc (m_index t)\<rparr>) =
                Inr (t\<lparr>m_index := Suc (m_index t) + close_pos (drop (Suc (m_index t)) (m_src t))\<rparr>)"
        by simp
      from inb False have cp: "close_pos (drop (m_index t) (m_src t)) = Suc (close_pos (drop (Suc (m_index t)) (m_src t)))"
        by (auto simp: close_pos_drop peek_1)
      show ?thesis by (simp add: step ih cp)
    qed
  qed
qed

lemma consume_if_any_eq:
  "consume_if_any t = Inr (if m_index t < length (m_src t) then t\<lparr>m_index := Suc (m_index t)\<rparr> else t)"
  by (simp add: consume_if_any_def peek_0 consume_eq)

lemma scan_word_eq:
  "m_index t < length (m_src t) \<Longrightarrow> isalnum (m_src t ! m_index t) \<Longrightarrow>
   scan_word t l =
     Inr (t\<lparr>m_index := m_index t + length (takeWhile isalnum (drop (m_index t) (m_src t)))\<rparr>,
          classify_word (l\<lparr>buf := buf l @ takeWhile isalnum (drop (m_index t) (m_src t))\<rparr>))"
  by (simp add: scan_word_def consume_eq push_while_eq Cons_nth_drop_Suc[symmetric])

lemma scan_number_eq:
  "m_index t < length (m_src t) \<Longrightarrow> isdigit (m_src t ! m_index t) \<Longrightarrow>
   scan_number t l =
     Inr (t\<lparr>m_index := m_index t + length (takeWhile isdigit (drop (m_index t) (m_src t)))\<rparr>,
          buf_clear (push_token_buf tk_int_lit (l\<lparr>buf := buf l @ takeWhile isdigit (drop (m_index t) (m_src t))\<rparr>)))"
  by (simp add: scan_number_def consume_eq push_while_eq Cons_nth_drop_Suc[symmetric])

lemma scan_line_comment_eq:
  "Suc (m_index t) < length (m_src t) \<Longrightarrow>
   scan_line_comment t l =
     Inr (t\<lparr>m_index := m_index t + 2 + length (takeWhile (\<lambda>c. c \<noteq> CHR 0x0A) (drop (m_index t + 2) (m_src t)))\<rparr>, l)"
  by (simp add: scan_line_comment_def consume_eq skip_line_eq)

lemma scan_block_comment_eq:
  "Suc (m_index t) < length (m_src t) \<Longrightarrow>
   scan_block_comment t l =
     Inr (t\<lparr>m_index :=
            (let j = m_index t + 2 + close_pos (drop (m_index t + 2) (m_src t))
             in if Suc j < length (m_src t) then j + 2 else if j < length (m_src t) then j + 1 else j)\<rparr>, l)"
  by (simp add: scan_block_comment_def consume_eq skip_block_eq consume_if_any_eq Let_def)

lemma scan_single_eq:
  "m_index t < length (m_src t) \<Longrightarrow>
   scan_single ty t l = Inr (t\<lparr>m_index := Suc (m_index t)\<rparr>, push_token ty l)"
  by (simp add: scan_single_def consume_eq)

lemma scan_newline_eq:
  "m_index t < length (m_src t) \<Longrightarrow>
   scan_newline t l = Inr (t\<lparr>m_index := Suc (m_index t)\<rparr>, l\<lparr>line_count := line_count l + 1\<rparr>)"
  by (simp add: scan_newline_def consume_eq)

lemma scan_space_eq:
  "m_index t < length (m_src t) \<Longrightarrow>
   scan_space t l = Inr (t\<lparr>m_index := Suc (m_index t)\<rparr>, l)"
  by (simp add: scan_space_def consume_eq)

lemma isalpha_isalnum: "isalpha c \<Longrightarrow> isalnum c"
  by (simp add: isalnum_def)

lemma isdigit_isalnum: "isdigit c \<Longrightarrow> isalnum c"
  by (simp add: isalnum_def)

lemma close_pos_le: "close_pos xs \<le> length xs"
  by (induction xs rule: close_pos.induct) auto

lemma tokenize_body_eq:
  assumes inb: "m_index t < length (m_src t)" and c: "c = m_src t ! m_index t"
  shows "tokenize_body c t l =
     (if isalpha c then
        Inr (t\<lparr>m_index := m_index t + length (takeWhile isalnum (drop (m_index t) (m_src t)))\<rparr>,
             classify_word (l\<lparr>buf := buf l @ takeWhile isalnum (drop (m_index t) (m_src t))\<rparr>))
      else if isdigit c then
        Inr (t\<lparr>m_index := m_index t + length (takeWhile isdigit (drop (m_index t) (m_src t)))\<rparr>,
             buf_clear (push_token_buf tk_int_lit (l\<lparr>buf := buf l @ takeWhile isdigit (drop (m_index t) (m_src t))\<rparr>)))
      else if c = CHR ''/'' \<and> peek t 1 = Some (CHR ''/'') then
        Inr (t\<lparr>m_index := m_index t + 2 + length (takeWhile (\<lambda>c. c \<noteq> CHR 0x0A) (drop (m_index t + 2) (m_src t)))\<rparr>, l)
      else if c = CHR ''/'' \<and> peek t 1 = Some (CHR ''*'') then
        Inr (t\<lparr>m_index := block_end (m_src t) (m_index t)\<rparr>, l)
      else if c = CHR ''('' then Inr (t\<lparr>m_index := Suc (m_index t)\<rparr>, push_token tk_open_paren l)
      else if c = CHR '')'' then Inr (t\<lparr>m_index := Suc (m_index t)\<rparr>, push_token tk_close_paren l)
      else if c = CHR '';'' then Inr (t\<lparr>m_index := Suc (m_index t)\<rparr>, push_token tk_semi l)
      else if c = CHR ''='' then Inr (t\<lparr>m_index := Suc (m_index t)\<rparr>, push_token tk_eq l)
      else if c = CHR ''+'' then Inr (t\<lparr>m_index := Suc (m_index t)\<rparr>, push_token tk_plus l)
      else if c = CHR ''*'' then Inr (t\<lparr>m_index := Suc (m_index t)\<rparr>, push_token tk_star l)
      else if c = CHR ''-'' then Inr (t\<lparr>m_index := Suc (m_index t)\<rparr>, push_token tk_minus l)
      else if c = CHR ''/'' then Inr (t\<lparr>m_index := Suc (m_index t)\<rparr>, push_token tk_fslash l)
      else if c = CHR ''{'' then Inr (t\<lparr>m_index := Suc (m_index t)\<rparr>, push_token tk_open_curly l)
      else if c = CHR ''}'' then Inr (t\<lparr>m_index := Suc (m_index t)\<rparr>, push_token tk_close_curly l)
      else if c = CHR '':'' then Inr (t\<lparr>m_index := Suc (m_index t)\<rparr>, push_token tk_colon l)
      else if c = CHR 0x0A then Inr (t\<lparr>m_index := Suc (m_index t)\<rparr>, l\<lparr>line_count := line_count l + 1\<rparr>)
      else if isspace c then Inr (t\<lparr>m_index := Suc (m_index t)\<rparr>, l)
      else Inl invalid_token)"
proof -
  have w: "isalpha c \<Longrightarrow> scan_word t l =
        Inr (t\<lparr>m_index := m_index t + length (takeWhile isalnum (drop (m_index t) (m_src t)))\<rparr>,
             classify_word (l\<lparr>buf := buf l @ takeWhile isalnum (drop (m_index t) (m_src t))\<rparr>))"
    using scan_word_eq[OF inb, of l] c by (simp add: isalpha_isalnum)
  have n: "isdigit c \<Longrightarrow> scan_number t l =
        Inr (t\<lparr>m_index := m_index t + length (takeWhile isdigit (drop (m_index t) (m_src t)))\<rparr>,
             buf_clear (push_token_buf tk_int_lit (l\<lparr>buf := buf l @ takeWhile isdigit (drop (m_index t) (m_src t))\<rparr>)))"
    using scan_number_eq[OF inb, of l] c by simp
  have lc: "peek t 1 = Some d \<Longrightarrow> scan_line_comment t l =
        Inr (t\<lparr>m_index := m_index t + 2 + length (takeWhile (\<lambda>c. c \<noteq> CHR 0x0A) (drop (m_index t + 2) (m_src t)))\<rparr>, l)" for d
    using scan_line_comment_eq[of t l] by (simp add: peek_1 split: if_splits)
  have bc: "peek t 1 = Some d \<Longrightarrow> scan_block_comment t l =
        Inr (t\<lparr>m_index := block_end (m_src t) (m_index t)\<rparr>, l)" for d
    using scan_block_comment_eq[of t l] by (simp add: peek_1 block_end_def split: if_splits)
  show ?thesis
    unfolding tokenize_body_def
    by (simp only: w n lc bc scan_single_eq[OF inb] scan_newline_eq[OF inb] scan_space_eq[OF inb]
        cong: if_cong)
qed

lemma classify_word_eq:
  "classify_word l = l\<lparr>tokens := tokens l @ [spec_word_token (buf l) (line_count l)], buf := []\<rparr>"
  by (simp add: classify_word_def spec_word_token_def keyword_of_def push_token_def
      push_token_buf_def buf_clear_def)

lemma tokenize_body_cases [consumes 2, case_names word number line_comment block_comment single newline space invalid]:
  assumes inb: "m_index t < length (m_src t)" and c: "c = m_src t ! m_index t"
  obtains
    (word) "isalpha c"
      "tokenize_body c t l =
        Inr (t\<lparr>m_index := m_index t + length (takeWhile isalnum (drop (m_index t) (m_src t)))\<rparr>,
             classify_word (l\<lparr>buf := buf l @ takeWhile isalnum (drop (m_index t) (m_src t))\<rparr>))"
  | (number) "\<not> isalpha c" "isdigit c"
      "tokenize_body c t l =
        Inr (t\<lparr>m_index := m_index t + length (takeWhile isdigit (drop (m_index t) (m_src t)))\<rparr>,
             buf_clear (push_token_buf tk_int_lit (l\<lparr>buf := buf l @ takeWhile isdigit (drop (m_index t) (m_src t))\<rparr>)))"
  | (line_comment) "c = CHR ''/''" "peek t 1 = Some (CHR ''/'')"
      "tokenize_body c t l =
        Inr (t\<lparr>m_index := m_index t + 2 + length (takeWhile (\<lambda>c. c \<noteq> CHR 0x0A) (drop (m_index t + 2) (m_src t)))\<rparr>, l)"
  | (block_comment) "c = CHR ''/''" "peek t 1 = Some (CHR ''*'')"
      "tokenize_body c t l = Inr (t\<lparr>m_index := block_end (m_src t) (m_index t)\<rparr>, l)"
  | (single) ty where "\<not> isalpha c" "\<not> isdigit c" "single_lexeme c = Some ty"
      "tokenize_body c t l = Inr (t\<lparr>m_index := Suc (m_index t)\<rparr>, push_token ty l)"
  | (newline) "c = CHR 0x0A"
      "tokenize_body c t l = Inr (t\<lparr>m_index := Suc (m_index t)\<rparr>, l\<lparr>line_count := line_count l + 1\<rparr>)"
  | (space) "isspace c"
      "tokenize_body c t l = Inr (t\<lparr>m_index := Suc (m_index t)\<rparr>, l)"
  | (invalid) "\<not> isalpha c" "\<not> isdigit c" "single_lexeme c = None" "c \<noteq> CHR 0x0A" "\<not> isspace c"
      "tokenize_body c t l = Inl invalid_token"
proof (cases "isalpha c")
  case True
  with tokenize_body_eq[OF inb c, of l] word show ?thesis by simp
next
  case na: False
  show ?thesis
  proof (cases "isdigit c")
    case True
    with na tokenize_body_eq[OF inb c, of l] number show ?thesis by simp
  next
    case nd: False
    show ?thesis
    proof (cases "c = CHR ''/'' \<and> peek t 1 = Some (CHR ''/'')")
      case True
      with na nd tokenize_body_eq[OF inb c, of l] line_comment show ?thesis by simp
    next
      case nl: False
      show ?thesis
      proof (cases "c = CHR ''/'' \<and> peek t 1 = Some (CHR ''*'')")
        case True
        with na nd nl tokenize_body_eq[OF inb c, of l] block_comment show ?thesis by simp
      next
        case nb: False
        show ?thesis
        proof (cases "single_lexeme c")
          case (Some ty)
          then have "tokenize_body c t l = Inr (t\<lparr>m_index := Suc (m_index t)\<rparr>, push_token ty l)"
            unfolding tokenize_body_eq[OF inb c, of l]
            using na nd nl nb by (auto simp: single_lexeme_def split: if_splits)
          with na nd Some single show ?thesis by blast
        next
          case None
          then have ns: "c \<noteq> CHR ''(''" "c \<noteq> CHR '')''" "c \<noteq> CHR '';''" "c \<noteq> CHR ''=''"
            "c \<noteq> CHR ''+''" "c \<noteq> CHR ''*''" "c \<noteq> CHR ''-''" "c \<noteq> CHR ''/''"
            "c \<noteq> CHR ''{''" "c \<noteq> CHR ''}''" "c \<noteq> CHR '':''"
            by (auto simp: single_lexeme_def split: if_splits)
          show ?thesis
          proof (cases "c = CHR 0x0A")
            case True
            with na nd ns tokenize_body_eq[OF inb c, of l] newline show ?thesis by simp
          next
            case nn: False
            show ?thesis
            proof (cases "isspace c")
              case True
              with na nd ns nn tokenize_body_eq[OF inb c, of l] space show ?thesis by simp
            next
              case False
              with na nd ns nn tokenize_body_eq[OF inb c, of l] None invalid show ?thesis by simp
            qed
          qed
        qed
      qed
    qed
  qed
qed

lemma block_end_bounds:
  "Suc i < length s \<Longrightarrow> i < block_end s i \<and> block_end s i \<le> length s"
  using close_pos_le[of "drop (i + 2) s"]
  by (auto simp: block_end_def Let_def)

lemma takeWhile_drop_le:
  "i \<le> length s \<Longrightarrow> i + length (takeWhile P (drop i s)) \<le> length s"
  using length_takeWhile_le[of P "drop i s"] by simp

lemma takeWhile_drop_pos:
  "i < length s \<Longrightarrow> P (s ! i) \<Longrightarrow> takeWhile P (drop i s) \<noteq> []"
  by (simp add: Cons_nth_drop_Suc[symmetric])

lemma tokenize_body_safe:
  assumes inb: "m_index t < length (m_src t)" and c: "c = m_src t ! m_index t"
  shows "step_safe t (tokenize_body c t l)"
using inb c
proof (cases rule: tokenize_body_cases[where l = l])
  case word
  with takeWhile_drop_pos[OF inb, of isalnum] takeWhile_drop_le[of "m_index t" "m_src t" isalnum] inb c
  show ?thesis by (simp add: step_safe_def isalpha_isalnum)
next
  case number
  with takeWhile_drop_pos[OF inb, of isdigit] takeWhile_drop_le[of "m_index t" "m_src t" isdigit] inb c
  show ?thesis by (simp add: step_safe_def)
next
  case line_comment
  with takeWhile_drop_le[of "m_index t + 2" "m_src t" "\<lambda>c. c \<noteq> CHR 0x0A"]
  show ?thesis by (simp add: step_safe_def peek_1 split: if_splits)
next
  case block_comment
  with block_end_bounds[of "m_index t" "m_src t"]
  show ?thesis by (simp add: step_safe_def peek_1 split: if_splits)
next
  case (single ty)
  with inb show ?thesis by (simp add: step_safe_def)
next
  case newline
  with inb show ?thesis by (simp add: step_safe_def)
next
  case space
  with inb show ?thesis by (simp add: step_safe_def)
next
  case invalid
  then show ?thesis by (simp add: step_safe_def)
qed

lemma tokenize_loop_safe:
  "m_index t \<le> length (m_src t) \<Longrightarrow>
   tokenize_loop t l = Inl invalid_token \<or>
   (\<exists>l'. tokenize_loop t l = Inr (t\<lparr>m_index := length (m_src t)\<rparr>, l'))"
proof (induction t l rule: tokenize_loop.induct)
  case (1 t l)
  show ?case
  proof (cases "m_index t < length (m_src t)")
    case False
    with "1.prems" have "m_index t = length (m_src t)" by simp
    then show ?thesis by (simp add: tokenize_loop.simps[of t l] peek_0)
  next
    case True
    let ?c = "m_src t ! m_index t"
    from True have p: "peek t 0 = Some ?c" by (simp add: peek_0)
    have safe: "step_safe t (tokenize_body ?c t l)" by (rule tokenize_body_safe[OF True refl])
    show ?thesis
    proof (cases "tokenize_body ?c t l")
      case (Inl e)
      with safe have "e = invalid_token" by (simp add: step_safe_def)
      with Inl p show ?thesis by (simp add: tokenize_loop.simps[of t l])
    next
      case (Inr r)
      obtain t' l' where r: "r = (t', l')" by (cases r)
      from safe Inr r have s: "m_src t' = m_src t" and b: "m_index t' \<le> length (m_src t')"
        by (simp_all add: step_safe_def)
      have eq: "t'\<lparr>m_index := length (m_src t')\<rparr> = t\<lparr>m_index := length (m_src t)\<rparr>"
        using s by (cases t, cases t') simp
      from "1.IH"[OF p Inr[unfolded r] refl b] eq
      have "tokenize_loop t' l' = Inl invalid_token \<or>
            (\<exists>l''. tokenize_loop t' l' = Inr (t\<lparr>m_index := length (m_src t)\<rparr>, l''))"
        by simp
      with Inr r p show ?thesis by (simp add: tokenize_loop.simps[of t l])
    qed
  qed
qed

section \<open>Comments and unrecognized characters\<close>

lemma close_pos_no_close: "\<not> contains_close xs \<Longrightarrow> close_pos xs = length xs"
  by (induction xs rule: close_pos.induct) auto

lemma block_end_no_close:
  assumes "Suc i < length s" and "\<not> contains_close (drop (i + 2) s)"
  shows "block_end s i = length s"
proof -
  from assms(2) have "close_pos (drop (i + 2) s) = length s - (i + 2)"
    by (simp add: close_pos_no_close)
  with assms(1) have "i + 2 + close_pos (drop (i + 2) s) = length s" by arith
  then show ?thesis unfolding block_end_def Let_def by simp
qed

lemma tokenize_loop_end:
  "m_index t = length (m_src t) \<Longrightarrow> tokenize_loop t l = Inr (t, l)"
  by (simp add: tokenize_loop.simps[of t l] peek_0)

lemma tokenize_loop_step:
  "m_index t < length (m_src t) \<Longrightarrow> tokenize_body (m_src t ! m_index t) t l = Inr (t', l') \<Longrightarrow>
   tokenize_loop t l = tokenize_loop t' l'"
  by (simp add: tokenize_loop.simps[of t l] peek_0)


lemma tokenize_body_word:
  assumes inb: "m_index t < length (m_src t)" and al: "isalpha (m_src t ! m_index t)"
    and b: "buf l = []"
  shows "tokenize_body (m_src t ! m_index t) t l =
     Inr (t\<lparr>m_index := m_index t + length (takeWhile isalnum (drop (m_index t) (m_src t)))\<rparr>,
          l\<lparr>tokens := tokens l @
             [spec_word_token (takeWhile isalnum (drop (m_index t) (m_src t))) (line_count l)]\<rparr>)"
proof -
  from b have lb: "l\<lparr>tokens := ts, buf := []\<rparr> = l\<lparr>tokens := ts\<rparr>" for ts
    by (cases l) simp
  from tokenize_body_eq[OF inb refl, of l] al b show ?thesis
    by (simp add: classify_word_eq lb)
qed






section \<open>Tokens in front, text in front\<close>

lemma prepend_tokens_simps [simp]:
  "prepend_tokens ts (Inl e) = Inl e"
  "prepend_tokens ts (Inr (t', l')) = Inr (t', l'\<lparr>tokens := ts @ tokens l'\<rparr>)"
  by (simp_all add: prepend_tokens_def)

lemma shift_result_simps [simp]:
  "shift_result pre (Inl e) = Inl e"
  "shift_result pre (Inr (t', l')) = Inr (shift pre t', l')"
  by (simp_all add: shift_result_def)

lemma classify_word_prepend:
  "classify_word (l\<lparr>tokens := ts @ tokens l, buf := b\<rparr>) =
   (classify_word (l\<lparr>buf := b\<rparr>))\<lparr>tokens := ts @ tokens (classify_word (l\<lparr>buf := b\<rparr>))\<rparr>"
  by (simp add: classify_word_eq)

lemma scan_word_prepend:
  "scan_word t (l\<lparr>tokens := ts @ tokens l\<rparr>) = prepend_tokens ts (scan_word t l)"
  by (auto simp: scan_word_def bindE_def classify_word_eq split: sum.splits prod.splits)

lemma scan_number_prepend:
  "scan_number t (l\<lparr>tokens := ts @ tokens l\<rparr>) = prepend_tokens ts (scan_number t l)"
  by (auto simp: scan_number_def bindE_def buf_clear_def push_token_buf_def split: sum.splits prod.splits)

lemma scan_line_comment_prepend:
  "scan_line_comment t (l\<lparr>tokens := ts @ tokens l\<rparr>) = prepend_tokens ts (scan_line_comment t l)"
  by (auto simp: scan_line_comment_def bindE_def split: sum.splits prod.splits)

lemma scan_block_comment_prepend:
  "scan_block_comment t (l\<lparr>tokens := ts @ tokens l\<rparr>) = prepend_tokens ts (scan_block_comment t l)"
  by (auto simp: scan_block_comment_def bindE_def split: sum.splits prod.splits)

lemma scan_single_prepend:
  "scan_single ty t (l\<lparr>tokens := ts @ tokens l\<rparr>) = prepend_tokens ts (scan_single ty t l)"
  by (auto simp: scan_single_def bindE_def push_token_def split: sum.splits prod.splits)

lemma scan_newline_prepend:
  "scan_newline t (l\<lparr>tokens := ts @ tokens l\<rparr>) = prepend_tokens ts (scan_newline t l)"
  by (auto simp: scan_newline_def bindE_def split: sum.splits prod.splits)

lemma scan_space_prepend:
  "scan_space t (l\<lparr>tokens := ts @ tokens l\<rparr>) = prepend_tokens ts (scan_space t l)"
  by (auto simp: scan_space_def bindE_def split: sum.splits prod.splits)

lemma tokenize_body_prepend:
  "tokenize_body c t (l\<lparr>tokens := ts @ tokens l\<rparr>) = prepend_tokens ts (tokenize_body c t l)"
  unfolding tokenize_body_def
  by (simp only: scan_word_prepend scan_number_prepend scan_line_comment_prepend
      scan_block_comment_prepend scan_single_prepend scan_newline_prepend scan_space_prepend
      if_distrib[of "prepend_tokens ts"] prepend_tokens_simps)

lemma tokenize_loop_prepend:
  "tokenize_loop t (l\<lparr>tokens := ts @ tokens l\<rparr>) = prepend_tokens ts (tokenize_loop t l)"
proof (induction t l rule: tokenize_loop.induct)
  case (1 t l)
  show ?case
  proof (cases "peek t 0")
    case None
    then show ?thesis
      by (simp add: tokenize_loop.simps[of t l] tokenize_loop.simps[of t "l\<lparr>tokens := ts @ tokens l\<rparr>"])
  next
    case (Some c)
    show ?thesis
    proof (cases "tokenize_body c t l")
      case (Inl e)
      with Some show ?thesis
        by (simp add: tokenize_loop.simps[of t l] tokenize_loop.simps[of t "l\<lparr>tokens := ts @ tokens l\<rparr>"]
            tokenize_body_prepend)
    next
      case (Inr r)
      obtain t' l' where r: "r = (t', l')" by (cases r)
      from "1.IH"[OF Some Inr[unfolded r] refl] Some Inr r show ?thesis
        by (simp add: tokenize_loop.simps[of t l] tokenize_loop.simps[of t "l\<lparr>tokens := ts @ tokens l\<rparr>"]
            tokenize_body_prepend)
    qed
  qed
qed

lemma shift_fields [simp]:
  "m_src (shift pre t) = pre @ m_src t" "m_index (shift pre t) = length pre + m_index t"
  by (simp_all add: shift_def)

lemma shift_index [simp]: "(shift pre t)\<lparr>m_index := length pre + j\<rparr> = shift pre (t\<lparr>m_index := j\<rparr>)"
  by (simp add: shift_def)

lemma peek_shift [simp]: "peek (shift pre t) k = peek t k"
  by (simp add: peek_def nth_append)

lemma consume_shift:
  "consume (shift pre t) =
     (case consume t of Inl e \<Rightarrow> Inl e | Inr (c, t') \<Rightarrow> Inr (c, shift pre t'))"
  by (simp add: consume_def nth_append shift_def)

lemma push_while_shift:
  "push_while P (shift pre t) b =
     (case push_while P t b of Inl e \<Rightarrow> Inl e | Inr (b', t') \<Rightarrow> Inr (b', shift pre t'))"
  by (simp add: push_while_eq add.assoc)

lemma skip_line_shift:
  "skip_line (shift pre t) = (case skip_line t of Inl e \<Rightarrow> Inl e | Inr t' \<Rightarrow> Inr (shift pre t'))"
  by (simp add: skip_line_eq add.assoc)

lemma skip_block_shift:
  "skip_block (shift pre t) = (case skip_block t of Inl e \<Rightarrow> Inl e | Inr t' \<Rightarrow> Inr (shift pre t'))"
  by (simp add: skip_block_eq add.assoc)

lemma consume_if_any_shift:
  "consume_if_any (shift pre t) =
     (case consume_if_any t of Inl e \<Rightarrow> Inl e | Inr t' \<Rightarrow> Inr (shift pre t'))"
  by (simp add: consume_if_any_eq shift_def)

lemma scan_word_shift: "scan_word (shift pre t) l = shift_result pre (scan_word t l)"
  by (auto simp: scan_word_def bindE_def consume_shift push_while_shift split: sum.splits prod.splits)

lemma scan_number_shift: "scan_number (shift pre t) l = shift_result pre (scan_number t l)"
  by (auto simp: scan_number_def bindE_def consume_shift push_while_shift split: sum.splits prod.splits)

lemma scan_line_comment_shift:
  "scan_line_comment (shift pre t) l = shift_result pre (scan_line_comment t l)"
  by (auto simp: scan_line_comment_def bindE_def consume_shift skip_line_shift
      split: sum.splits prod.splits)

lemma scan_block_comment_shift:
  "scan_block_comment (shift pre t) l = shift_result pre (scan_block_comment t l)"
  by (auto simp: scan_block_comment_def bindE_def consume_shift skip_block_shift
      consume_if_any_shift split: sum.splits prod.splits)

lemma scan_single_shift: "scan_single ty (shift pre t) l = shift_result pre (scan_single ty t l)"
  by (auto simp: scan_single_def bindE_def consume_shift split: sum.splits prod.splits)

lemma scan_newline_shift: "scan_newline (shift pre t) l = shift_result pre (scan_newline t l)"
  by (auto simp: scan_newline_def bindE_def consume_shift split: sum.splits prod.splits)

lemma scan_space_shift: "scan_space (shift pre t) l = shift_result pre (scan_space t l)"
  by (auto simp: scan_space_def bindE_def consume_shift split: sum.splits prod.splits)

lemma tokenize_body_shift:
  "tokenize_body c (shift pre t) l = shift_result pre (tokenize_body c t l)"
  unfolding tokenize_body_def
  by (simp only: scan_word_shift scan_number_shift scan_line_comment_shift
      scan_block_comment_shift scan_single_shift scan_newline_shift scan_space_shift
      peek_shift if_distrib[of "shift_result pre"] shift_result_simps)

lemma tokenize_loop_shift:
  "tokenize_loop (shift pre t) l = shift_result pre (tokenize_loop t l)"
proof (induction t l rule: tokenize_loop.induct)
  case (1 t l)
  show ?case
  proof (cases "peek t 0")
    case None
    then show ?thesis
      by (simp add: tokenize_loop.simps[of t l] tokenize_loop.simps[of "shift pre t" l])
  next
    case (Some c)
    show ?thesis
    proof (cases "tokenize_body c t l")
      case (Inl e)
      with Some show ?thesis
        by (simp add: tokenize_loop.simps[of t l] tokenize_loop.simps[of "shift pre t" l]
            tokenize_body_shift)
    next
      case (Inr r)
      obtain t' l' where r: "r = (t', l')" by (cases r)
      from "1.IH"[OF Some Inr[unfolded r] refl] Some Inr r show ?thesis
        by (simp add: tokenize_loop.simps[of t l] tokenize_loop.simps[of "shift pre t" l]
            tokenize_body_shift)
    qed
  qed
qed

section \<open>The states the loop reaches\<close>

lemma reaches_loop:
  "reaches s s' \<Longrightarrow> tokenize_loop (fst s) (snd s) = tokenize_loop (fst s') (snd s')"
proof (induction rule: reaches.induct)
  case (here s)
  show ?case ..
next
  case (step s t l c t' l')
  then show ?case by (simp add: tokenize_loop.simps[of t l])
qed

lemma tokenize_body_buf:
  assumes inb: "m_index t < length (m_src t)" and c: "c = m_src t ! m_index t"
    and b: "buf l = []" and r: "tokenize_body c t l = Inr (t', l')"
  shows "buf l' = []"
  using inb c
proof (cases rule: tokenize_body_cases[where l = l])
  case word
  with r show ?thesis by (auto simp: classify_word_eq)
next
  case number
  with r show ?thesis by (auto simp: buf_clear_def)
next
  case (single ty)
  with r b show ?thesis by (auto simp: push_token_def)
qed (use r b in auto)

lemma reaches_inv:
  "reaches s s' \<Longrightarrow> m_index (fst s) \<le> length (m_src (fst s)) \<Longrightarrow> buf (snd s) = [] \<Longrightarrow>
   m_src (fst s') = m_src (fst s) \<and> m_index (fst s') \<le> length (m_src (fst s)) \<and>
   m_index (fst s) \<le> m_index (fst s') \<and> buf (snd s') = []"
proof (induction rule: reaches.induct)
  case (here s)
  then show ?case by simp
next
  case (step s t l c t' l')
  from step.IH[OF step.prems] have ih: "m_src t = m_src (fst s)" "m_index t \<le> length (m_src (fst s))"
    "m_index (fst s) \<le> m_index t" "buf l = []" by simp_all
  from step.hyps(2) have inb: "m_index t < length (m_src t)" and c: "c = m_src t ! m_index t"
    by (simp_all add: peek_0 split: if_splits)
  from tokenize_body_safe[OF inb c, of l] step.hyps(3)
  have "m_src t' = m_src t \<and> m_index t < m_index t' \<and> m_index t' \<le> length (m_src t)"
    by (simp add: step_safe_def)
  moreover have "buf l' = []" by (rule tokenize_body_buf[OF inb c ih(4) step.hyps(3)])
  ultimately show ?case using ih by simp
qed

lemma tokenize_scan_text:
  "tokenize (Tokenizer_new s) =
     (case scan_text s 1 of Inl e \<Rightarrow> Inl e | Inr ts \<Rightarrow> Inr (ts, Tokenizer_new s))"
proof -
  have "m_index (Tokenizer_new s) \<le> length (m_src (Tokenizer_new s))"
    by (simp add: Tokenizer_new_def)
  from tokenize_loop_safe[OF this, of locals_init] show ?thesis
    by (auto simp: tokenize_def scan_text_def Tokenizer_new_def locals_init_def)
qed

lemma tokenize_from_reached:
  assumes r: "reaches (Tokenizer_new src, locals_init) (t, l)"
  shows "tokenize (Tokenizer_new src) =
     (case scan_text (drop (m_index t) src) (line_count l) of
        Inl e \<Rightarrow> Inl e
      | Inr ts \<Rightarrow> Inr (tokens l @ ts, Tokenizer_new src))"
proof -
  from reaches_inv[OF r] have src: "m_src t = src" and le: "m_index t \<le> length src"
    and b: "buf l = []"
    by (simp_all add: Tokenizer_new_def locals_init_def)
  let ?l0 = "\<lparr>tokens = [], buf = [], line_count = line_count l\<rparr>"
  let ?t0 = "Tokenizer_new (drop (m_index t) src)"
  from src le have t: "t = shift (take (m_index t) src) ?t0"
    by (cases t) (simp add: shift_def Tokenizer_new_def)
  from b have l: "l = ?l0\<lparr>tokens := tokens l @ tokens ?l0\<rparr>" by (cases l) simp
  have "tokenize_loop t l = prepend_tokens (tokens l) (shift_result (take (m_index t) src) (tokenize_loop ?t0 ?l0))"
    by (subst t, subst l, simp only: tokenize_loop_prepend tokenize_loop_shift)
  moreover have "m_index ?t0 \<le> length (m_src ?t0)" by (simp add: Tokenizer_new_def)
  note tokenize_loop_safe[OF this, of ?l0]
  moreover from reaches_loop[OF r]
  have "tokenize_loop (Tokenizer_new src) locals_init = tokenize_loop t l" by simp
  ultimately show ?thesis using le
    by (auto simp: tokenize_def scan_text_def shift_def Tokenizer_new_def)
qed

lemma reached_step:
  assumes r: "reaches (Tokenizer_new src, locals_init) (t, l)"
    and p: "peek t 0 = Some c" and b: "tokenize_body c t l = Inr (t', l')"
  shows "reaches (Tokenizer_new src, locals_init) (t', l') \<and>
         tokenize (Tokenizer_new src) =
           (case scan_text (drop (m_index t') src) (line_count l') of
              Inl e \<Rightarrow> Inl e
            | Inr ts \<Rightarrow> Inr (tokens l' @ ts, Tokenizer_new src))"
proof -
  from reaches.step[OF r p b] have r': "reaches (Tokenizer_new src, locals_init) (t', l')" .
  with tokenize_from_reached[OF r'] show ?thesis by simp
qed


section \<open>The invariants of the locals\<close>

lemma keyword_of_Some:
  "keyword_of w = Some k \<Longrightarrow> k \<noteq> tk_ident \<and> k \<noteq> tk_int_lit"
  by (auto simp: keyword_of_def split: if_splits)

lemma single_lexeme_Some:
  "single_lexeme c = Some k \<Longrightarrow> k \<noteq> tk_ident \<and> k \<noteq> tk_int_lit"
  by (auto simp: single_lexeme_def split: if_splits)

lemma token_ok_word: "w \<noteq> [] \<Longrightarrow> token_ok (spec_word_token w ln)"
  by (auto simp: token_ok_def spec_word_token_def dest: keyword_of_Some split: option.splits)

lemma line_word [simp]: "line (spec_word_token w ln) = ln"
  by (simp add: spec_word_token_def split: option.splits)

lemma tokenize_body_tokens:
  assumes inb: "m_index t < length (m_src t)" and c: "c = m_src t ! m_index t"
    and b: "buf l = []" and r: "tokenize_body c t l = Inr (t', l')"
  shows "buf l' = [] \<and>
         ((tokens l' = tokens l \<and> (line_count l' = line_count l \<or>
              (c = CHR 0x0A \<and> m_index t' = Suc (m_index t) \<and> line_count l' = line_count l + 1))) \<or>
          (\<exists>tk. tokens l' = tokens l @ [tk] \<and> token_ok tk \<and> line tk = line_count l \<and>
                line_count l' = line_count l))"
  using inb c
proof (cases rule: tokenize_body_cases[where l = l])
  case word
  let ?run = "takeWhile isalnum (drop (m_index t) (m_src t))"
  from word c have ne: "?run \<noteq> []" using takeWhile_drop_pos[OF inb, of isalnum]
    by (simp add: isalpha_isalnum)
  from word r b have "l' = l\<lparr>buf := ?run, tokens := tokens l @ [spec_word_token ?run (line_count l)], buf := []\<rparr>"
    by (simp add: classify_word_eq)
  with token_ok_word[OF ne, of "line_count l"] show ?thesis by simp
next
  case number
  let ?run = "takeWhile isdigit (drop (m_index t) (m_src t))"
  from number c have ne: "?run \<noteq> []" using takeWhile_drop_pos[OF inb, of isdigit] by simp
  let ?tk = "\<lparr>type = tk_int_lit, line = line_count l, val = Some ?run\<rparr>"
  from ne have tk: "token_ok ?tk" by (simp add: token_ok_def)
  from number r b have "l' = l\<lparr>buf := ?run, tokens := tokens l @ [?tk], buf := []\<rparr>"
    by (simp add: buf_clear_def push_token_buf_def)
  with tk show ?thesis by simp
next
  case line_comment
  with r b show ?thesis by auto
next
  case block_comment
  with r b show ?thesis by auto
next
  case (single ty)
  let ?tk = "\<lparr>type = ty, line = line_count l, val = None\<rparr>"
  from single_lexeme_Some[OF single(3)] have tk: "token_ok ?tk" by (simp add: token_ok_def)
  from single r have "l' = l\<lparr>tokens := tokens l @ [?tk]\<rparr>" by (simp add: push_token_def)
  with tk b show ?thesis by simp
next
  case newline
  with r b show ?thesis by auto
next
  case space
  with r b show ?thesis by auto
next
  case invalid
  with r show ?thesis by simp
qed

lemma tokenize_body_payload_ok:
  assumes "m_index t < length (m_src t)" and "c = m_src t ! m_index t"
    and ok: "payload_ok l" and r: "tokenize_body c t l = Inr (t', l')"
  shows "payload_ok l'"
proof -
  from ok have b: "buf l = []" by (simp add: payload_ok_def)
  from tokenize_body_tokens[OF assms(1,2) b r] ok show ?thesis
    by (auto simp: payload_ok_def)
qed

lemma tokenize_loop_payload_ok:
  "payload_ok l \<Longrightarrow> tokenize_loop t l = Inr (t', l') \<Longrightarrow> payload_ok l'"
proof (induction t l rule: tokenize_loop.induct)
  case (1 t l)
  show ?case
  proof (cases "m_index t < length (m_src t)")
    case False
    with "1.prems" show ?thesis by (simp add: tokenize_loop.simps[of t l] peek_0)
  next
    case True
    let ?c = "m_src t ! m_index t"
    from True have p: "peek t 0 = Some ?c" by (simp add: peek_0)
    from "1.prems"(2) p obtain t1 l1 where b: "tokenize_body ?c t l = Inr (t1, l1)"
      and r: "tokenize_loop t1 l1 = Inr (t', l')"
      by (auto simp: tokenize_loop.simps[of t l] split: sum.splits)
    from tokenize_body_payload_ok[OF True refl "1.prems"(1) b] have "payload_ok l1" .
    from "1.IH"[OF p b refl this r] show ?thesis .
  qed
qed

lemma sint_succ:
  fixes x :: "32 word"
  assumes "sint x < 2147483647"
  shows "sint (x + 1) = sint x + 1"
proof -
  have "sint (x + 1) = signed_take_bit 31 (sint x + 1)" by (simp add: sint_word_ariths)
  also have "\<dots> = sint x + 1"
    by (rule signed_take_bit_int_eq_self) (use sint_ge[of x] assms in simp_all)
  finally show ?thesis .
qed

lemma count_take_mono: "i \<le> j \<Longrightarrow> count_list (take i s) x \<le> count_list (take j s) x"
proof -
  assume "i \<le> j"
  then have "take j s = take i s @ take (j - i) (drop i s)"
    using take_add[of i "j - i" s] by simp
  then show ?thesis by simp
qed

lemma count_take_le: "count_list (take i s) x \<le> count_list s x"
  using count_take_mono[of i "max i (length s)" s x] by simp

lemma count_take_Suc:
  "i < length s \<Longrightarrow> s ! i = x \<Longrightarrow> count_list (take (Suc i) s) x = Suc (count_list (take i s) x)"
  by (simp add: take_Suc_conv_app_nth)

lemma tokenize_body_lines_ok:
  assumes inb: "m_index t < length (m_src t)" and c: "c = m_src t ! m_index t"
    and b: "buf l = []" and ok: "lines_ok t l"
    and few: "count_list (m_src t) (CHR 0x0A) < 2147483647"
    and r: "tokenize_body c t l = Inr (t', l')"
  shows "lines_ok t' l'"
proof -
  let ?n = "\<lambda>i. int (count_list (take i (m_src t)) (CHR 0x0A))"
  from tokenize_body_safe[OF inb c, of l] r
  have src: "m_src t' = m_src t" and adv: "m_index t < m_index t'"
    by (simp_all add: step_safe_def)
  from adv have mono: "?n (m_index t) \<le> ?n (m_index t')"
    using count_take_mono[of "m_index t" "m_index t'" "m_src t" "CHR 0x0A"] by simp
  from tokenize_body_tokens[OF inb c b r]
  consider (same) "tokens l' = tokens l" "line_count l' = line_count l"
    | (nl) "tokens l' = tokens l" "c = CHR 0x0A" "m_index t' = Suc (m_index t)"
        "line_count l' = line_count l + 1"
    | (tok) tk where "tokens l' = tokens l @ [tk]" "line tk = line_count l"
        "line_count l' = line_count l"
    by blast
  then show ?thesis
  proof cases
    case same
    with ok mono src show ?thesis by (simp add: lines_ok_def)
  next
    case nl
    from count_take_Suc[OF inb, of "CHR 0x0A"] c nl
    have s: "?n (m_index t') = ?n (m_index t) + 1" by simp
    from count_take_le[of "m_index t'" "m_src t" "CHR 0x0A"] few
    have "?n (m_index t') < 2147483647" by simp
    with s ok have small: "sint (line_count l) < 2147483647" by (simp add: lines_ok_def)
    from sint_succ[OF small] nl have "sint (line_count l') = sint (line_count l) + 1" by simp
    with ok s src nl show ?thesis by (auto simp: lines_ok_def)
  next
    case tok
    with ok mono src show ?thesis by (auto simp: lines_ok_def sorted_append)
  qed
qed

lemma tokenize_loop_lines_ok:
  "buf l = [] \<Longrightarrow> lines_ok t l \<Longrightarrow> count_list (m_src t) (CHR 0x0A) < 2147483647 \<Longrightarrow>
   tokenize_loop t l = Inr (t', l') \<Longrightarrow> lines_ok t' l'"
proof (induction t l rule: tokenize_loop.induct)
  case (1 t l)
  show ?case
  proof (cases "m_index t < length (m_src t)")
    case False
    with "1.prems" show ?thesis by (simp add: tokenize_loop.simps[of t l] peek_0)
  next
    case True
    let ?c = "m_src t ! m_index t"
    from True have p: "peek t 0 = Some ?c" by (simp add: peek_0)
    from "1.prems"(4) p obtain t1 l1 where b: "tokenize_body ?c t l = Inr (t1, l1)"
      and r: "tokenize_loop t1 l1 = Inr (t', l')"
      by (auto simp: tokenize_loop.simps[of t l] split: sum.splits)
    from tokenize_body_lines_ok[OF True refl "1.prems"(1,2,3) b] have ok1: "lines_ok t1 l1" .
    from tokenize_body_tokens[OF True refl "1.prems"(1) b] have b1: "buf l1 = []" by simp
    from tokenize_body_safe[OF True refl, of l] b have "m_src t1 = m_src t"
      by (simp add: step_safe_def)
    with "1.prems"(3) have few1: "count_list (m_src t1) (CHR 0x0A) < 2147483647" by simp
    from "1.IH"[OF p b refl b1 ok1 few1 r] show ?thesis .
  qed
qed

section \<open>Runs of newlines\<close>

lemma tokenize_body_newline:
  "m_index t < length (m_src t) \<Longrightarrow> m_src t ! m_index t = CHR 0x0A \<Longrightarrow>
   tokenize_body (CHR 0x0A) t l =
     Inr (t\<lparr>m_index := Suc (m_index t)\<rparr>, l\<lparr>line_count := line_count l + 1\<rparr>)"
  by (simp add: tokenize_body_eq isalpha_def isdigit_def)

lemma newline_run:
  "\<forall>j<n. m_src t ! (m_index t + j) = CHR 0x0A \<Longrightarrow> m_index t + n \<le> length (m_src t) \<Longrightarrow>
   tokenize_loop t l =
     tokenize_loop (t\<lparr>m_index := m_index t + n\<rparr>) (l\<lparr>line_count := line_count l + of_nat n\<rparr>)"
proof (induction n arbitrary: t l)
  case 0
  show ?case by simp
next
  case (Suc n)
  from Suc.prems have inb: "m_index t < length (m_src t)" and c: "m_src t ! m_index t = CHR 0x0A"
    by (simp, metis add.right_neutral zero_less_Suc)
  let ?t1 = "t\<lparr>m_index := Suc (m_index t)\<rparr>" and ?l1 = "l\<lparr>line_count := line_count l + 1\<rparr>"
  from tokenize_body_newline[OF inb c, of l] tokenize_loop_step[OF inb, of l ?t1 ?l1] c
  have 1: "tokenize_loop t l = tokenize_loop ?t1 ?l1" by simp
  from Suc.prems(1) have "\<forall>j<n. m_src ?t1 ! (m_index ?t1 + j) = CHR 0x0A"
    by (auto dest: spec[of _ "Suc _"])
  moreover from Suc.prems(2) have "m_index ?t1 + n \<le> length (m_src ?t1)" by simp
  ultimately have "tokenize_loop ?t1 ?l1 =
     tokenize_loop (?t1\<lparr>m_index := m_index ?t1 + n\<rparr>) (?l1\<lparr>line_count := line_count ?l1 + of_nat n\<rparr>)"
    by (rule Suc.IH)
  with 1 show ?case by (simp add: add.assoc)
qed

lemma tokenize_across_newlines:
  assumes n: "0 < n"
  shows "tokenize (Tokenizer_new (''x'' @ replicate n (CHR 0x0A) @ ''y'')) =
     Inr ([\<lparr>type = tk_ident, line = 1, val = Some ''x''\<rparr>,
           \<lparr>type = tk_ident, line = 1 + of_nat n, val = Some ''y''\<rparr>],
          Tokenizer_new (''x'' @ replicate n (CHR 0x0A) @ ''y''))"
proof -
  let ?s = "''x'' @ replicate n (CHR 0x0A) @ ''y''"
  from n obtain m where m: "n = Suc m" by (cases n) auto
  have len: "length ?s = n + 2" by simp
  have ax: "isalpha (CHR ''x'')" and ay: "isalpha (CHR ''y'')" and nn: "\<not> isalnum (CHR 0x0A)"
    by (simp_all add: isalpha_def isalnum_def isdigit_def)
  have kx: "spec_word_token ''x'' ln = \<lparr>type = tk_ident, line = ln, val = Some ''x''\<rparr>"
    and ky: "spec_word_token ''y'' ln = \<lparr>type = tk_ident, line = ln, val = Some ''y''\<rparr>" for ln
    by (simp_all add: spec_word_token_def keyword_of_def)
  let ?t0 = "Tokenizer_new ?s"
  let ?t1 = "\<lparr>m_src = ?s, m_index = 1\<rparr>"
  let ?l1 = "\<lparr>tokens = [\<lparr>type = tk_ident, line = 1, val = Some ''x''\<rparr>], buf = [], line_count = 1\<rparr>"
  have i0: "m_index ?t0 < length (m_src ?t0)" by (simp add: Tokenizer_new_def)
  have r0: "takeWhile isalnum (drop (m_index ?t0) (m_src ?t0)) = ''x''"
    using ax nn by (simp add: Tokenizer_new_def m isalpha_isalnum)
  have a0: "isalpha (m_src ?t0 ! m_index ?t0)" using ax by (simp add: Tokenizer_new_def)
  have b0: "buf locals_init = []" by (simp add: locals_init_def)
  have "tokenize_body (m_src ?t0 ! m_index ?t0) ?t0 locals_init = Inr (?t1, ?l1)"
    unfolding tokenize_body_word[OF i0 a0 b0] r0
    by (simp add: Tokenizer_new_def locals_init_def kx)
  from tokenize_loop_step[OF i0 this]
  have 1: "tokenize_loop ?t0 locals_init = tokenize_loop ?t1 ?l1" .
  let ?t2 = "\<lparr>m_src = ?s, m_index = Suc n\<rparr>"
  let ?l2 = "\<lparr>tokens = [\<lparr>type = tk_ident, line = 1, val = Some ''x''\<rparr>], buf = [],
              line_count = 1 + of_nat n\<rparr>"
  have "\<forall>j<n. m_src ?t1 ! (m_index ?t1 + j) = CHR 0x0A" by (simp add: nth_append)
  moreover have "m_index ?t1 + n \<le> length (m_src ?t1)" by simp
  ultimately have "tokenize_loop ?t1 ?l1 =
     tokenize_loop (?t1\<lparr>m_index := m_index ?t1 + n\<rparr>) (?l1\<lparr>line_count := line_count ?l1 + of_nat n\<rparr>)"
    by (rule newline_run)
  then have 2: "tokenize_loop ?t1 ?l1 = tokenize_loop ?t2 ?l2" by simp
  let ?t3 = "\<lparr>m_src = ?s, m_index = n + 2\<rparr>"
  let ?l3 = "\<lparr>tokens = [\<lparr>type = tk_ident, line = 1, val = Some ''x''\<rparr>,
                          \<lparr>type = tk_ident, line = 1 + of_nat n, val = Some ''y''\<rparr>], buf = [],
              line_count = 1 + of_nat n\<rparr>"
  have i2: "m_index ?t2 < length (m_src ?t2)" by simp
  have c2: "m_src ?t2 ! m_index ?t2 = CHR ''y''" by (simp add: nth_append)
  have r2: "takeWhile isalnum (drop (m_index ?t2) (m_src ?t2)) = ''y''"
    using ay by (simp add: isalpha_isalnum)
  have a2: "isalpha (m_src ?t2 ! m_index ?t2)" using ay c2 by simp
  have b2: "buf ?l2 = []" by simp
  have "tokenize_body (m_src ?t2 ! m_index ?t2) ?t2 ?l2 = Inr (?t3, ?l3)"
    unfolding tokenize_body_word[OF i2 a2 b2] r2
    by (simp add: ky)
  from tokenize_loop_step[OF i2 this]
  have 3: "tokenize_loop ?t2 ?l2 = tokenize_loop ?t3 ?l3" .
  have 4: "tokenize_loop ?t3 ?l3 = Inr (?t3, ?l3)" by (rule tokenize_loop_end) simp
  from 1 2 3 4 show ?thesis by (simp add: tokenize_def Tokenizer_new_def)
qed

section \<open>Alignment and allocation\<close>

lemma align_up_dvd: "al dvd align_up al p"
  by (simp add: align_up_def)

lemma align_up_ge: "0 < al \<Longrightarrow> p \<le> align_up al p"
proof -
  assume al: "0 < al"
  have "p + al - 1 < ((p + al - 1) div al) * al + al"
    using al by (metis dividend_less_div_times add.commute mult.commute)
  then have "p + al - 1 < align_up al p + al" by (simp add: align_up_def)
  with al show ?thesis by linarith
qed

lemma align_up_lt: "0 < al \<Longrightarrow> align_up al p < p + al"
proof -
  assume al: "0 < al"
  have "align_up al p \<le> p + al - 1" unfolding align_up_def by simp
  with al show ?thesis by linarith
qed

lemma align_up_least:
  assumes al: "0 < al" and x: "p \<le> x" and d: "al dvd x"
  shows "align_up al p \<le> x"
proof -
  from d obtain m where m: "x = al * m" ..
  from x have "p + al - 1 \<le> x + al - 1" by simp
  then have "(p + al - 1) div al \<le> (x + al - 1) div al" by (rule div_le_mono)
  also have "(x + al - 1) div al = m"
  proof -
    from al have "x + al - 1 = al * m + (al - 1)" unfolding m by linarith
    then have "(x + al - 1) div al = (al * m + (al - 1)) div al" by simp
    also from al have "\<dots> = m + (al - 1) div al" by (intro div_mult_self4) simp
    also from al have "\<dots> = m" by simp
    finally show ?thesis .
  qed
  finally have "(p + al - 1) div al \<le> m" .
  then have "((p + al - 1) div al) * al \<le> m * al" by (rule mult_le_mono1)
  then show ?thesis by (simp add: align_up_def m mult.commute)
qed

lemma std_align_eq:
  assumes al: "0 < al"
  shows "std_align al sz p space =
     (if align_up al p + sz \<le> p + space
      then (align_up al p, align_up al p, space - (align_up al p - p))
      else (0, p, space))"
proof -
  have ge: "p \<le> align_up al p" by (rule align_up_ge[OF al])
  show ?thesis
    unfolding std_align_def Let_def align_up_def[symmetric]
    using ge by auto
qed

lemma ctype_ok_pos: "ctype_ok T \<Longrightarrow> 0 < sizeof T \<and> 0 < alignof T"
  by (auto simp: ctype_ok_def)

lemma fits_iff:
  assumes inv: "arena_inv a" and ok: "ctype_ok T"
  shows "fits T a \<longleftrightarrow> align_up (alignof T) (m_offset a) + sizeof T \<le> m_buffer a + m_size a"
proof
  from ok have al: "0 < alignof T" by (simp add: ctype_ok_pos)
  {
    assume "fits T a"
    then obtain addr where a: "m_offset a \<le> addr" "alignof T dvd addr"
      "addr + sizeof T \<le> m_buffer a + m_size a"
      by (auto simp: fits_def)
    from align_up_least[OF al a(1) a(2)] a(3)
    show "align_up (alignof T) (m_offset a) + sizeof T \<le> m_buffer a + m_size a" by simp
  }
  {
    assume r: "align_up (alignof T) (m_offset a) + sizeof T \<le> m_buffer a + m_size a"
    with align_up_ge[OF al, of "m_offset a"] align_up_dvd[of "alignof T" "m_offset a"]
    show "fits T a"
      by (auto simp: fits_def intro!: bexI[of _ "align_up (alignof T) (m_offset a)"])
  }
qed

lemma alloc_eq:
  assumes inv: "arena_inv a" and ok: "ctype_ok T"
  shows "alloc T a =
     (if fits T a
      then (Inr (align_up (alignof T) (m_offset a)),
            a\<lparr>m_offset := align_up (alignof T) (m_offset a) + sizeof T\<rparr>)
      else (Inl bad_alloc, a))"
proof -
  from ok have al: "0 < alignof T" and sz: "0 < sizeof T" by (simp_all add: ctype_ok_pos)
  let ?p = "m_offset a" and ?e = "m_buffer a + m_size a"
  let ?q = "align_up (alignof T) ?p"
  from inv have rem: "m_size a - (?p - m_buffer a) = ?e - ?p" and pe: "?p + (?e - ?p) = ?e"
    and b: "m_buffer a \<le> ?p"
    by (auto simp: arena_inv_def)
  have ge: "?p \<le> ?q" by (rule align_up_ge[OF al])
  have nz: "?q \<noteq> 0" if "?q + sizeof T \<le> ?e"
  proof
    assume "?q = 0"
    with ge have "?p = 0" by simp
    with b have "m_buffer a = 0" by simp
    with inv have "m_size a = 0" by (simp add: arena_inv_def)
    with \<open>m_buffer a = 0\<close> that sz show False by simp
  qed
  show ?thesis
    unfolding alloc_def rem std_align_eq[OF al] fits_iff[OF inv ok]
    using nz by (auto simp: Let_def pe)
qed

lemma run_request_eq:
  "run_request r (a, mem) =
     (case alloc (request_type r) a of
        (Inl e, a') \<Rightarrow> (Inl e, a', mem)
      | (Inr p, a') \<Rightarrow> (Inr p, a', case r of Alloc T \<Rightarrow> mem | Emplace T v \<Rightarrow> mem(p \<mapsto> v)))"
  by (cases r) (auto simp: emplace_def split: prod.splits sum.splits)

lemma run_request_props:
  assumes inv: "arena_inv a" and ok: "ctype_ok (request_type r)"
    and run: "run_request r (a, mem) = (res, a', mem')"
  shows "arena_inv a' \<and> m_buffer a' = m_buffer a \<and> m_size a' = m_size a \<and>
         m_offset a \<le> m_offset a' \<and>
         (case res of
            Inl e \<Rightarrow> e = bad_alloc \<and> a' = a \<and> \<not> fits (request_type r) a
          | Inr p \<Rightarrow> fits (request_type r) a \<and> m_offset a \<le> p \<and>
                     alignof (request_type r) dvd p \<and>
                     p < m_offset a + alignof (request_type r) \<and>
                     m_offset a' = p + sizeof (request_type r))"
proof -
  let ?T = "request_type r"
  from ok have al: "0 < alignof ?T" by (simp add: ctype_ok_pos)
  show ?thesis
  proof (cases "fits ?T a")
    case False
    with run alloc_eq[OF inv ok] inv show ?thesis by (auto simp: run_request_eq)
  next
    case True
    let ?q = "align_up (alignof ?T) (m_offset a)"
    from True fits_iff[OF inv ok] have e: "?q + sizeof ?T \<le> m_buffer a + m_size a" by simp
    from run alloc_eq[OF inv ok] True
    have res: "res = Inr ?q" and a': "a' = a\<lparr>m_offset := ?q + sizeof ?T\<rparr>"
      by (simp_all add: run_request_eq)
    from align_up_ge[OF al, of "m_offset a"] have ge: "m_offset a \<le> ?q" .
    from inv ge e have "arena_inv a'" by (simp add: a' arena_inv_def)
    with res a' True ge align_up_dvd[of "alignof ?T" "m_offset a"] align_up_lt[OF al, of "m_offset a"]
    show ?thesis by simp
  qed
qed

lemma run_requests_props:
  "arena_inv a \<Longrightarrow> \<forall>r \<in> set xs. ctype_ok (request_type r) \<Longrightarrow>
   run_requests xs (a, mem) = (rs, a', mem') \<Longrightarrow>
   arena_inv a' \<and> m_buffer a' = m_buffer a \<and> m_size a' = m_size a \<and>
   m_offset a \<le> m_offset a' \<and> length rs = length xs \<and>
   (\<forall>j < length xs. \<forall>q. rs ! j = Inr q \<longrightarrow>
      m_offset a \<le> q \<and> q + sizeof (request_type (xs ! j)) \<le> m_offset a')"
proof (induction xs arbitrary: a mem rs a' mem')
  case Nil
  then show ?case by simp
next
  case (Cons x xs)
  obtain r a1 mem1 where one: "run_request x (a, mem) = (r, a1, mem1)"
    by (cases "run_request x (a, mem)") auto
  obtain rs1 a2 mem2 where rest: "run_requests xs (a1, mem1) = (rs1, a2, mem2)"
    by (cases "run_requests xs (a1, mem1)") auto
  from Cons.prems(3) one rest have rs: "rs = r # rs1" and a2: "a2 = a'" by simp_all
  from Cons.prems(2) have okx: "ctype_ok (request_type x)"
    and okxs: "\<forall>r \<in> set xs. ctype_ok (request_type r)" by simp_all
  note p1 = run_request_props[OF Cons.prems(1) okx one]
  then have inv1: "arena_inv a1" by simp
  note p2 = Cons.IH[OF inv1 okxs rest]
  have "m_offset a \<le> q \<and> q + sizeof (request_type ((x # xs) ! j)) \<le> m_offset a'"
    if j: "j < length (x # xs)" and q: "rs ! j = Inr q" for j q
  proof (cases j)
    case 0
    with q rs have "r = Inr q" by simp
    with p1 p2 a2 0 show ?thesis by simp
  next
    case (Suc j')
    with j q rs have "j' < length xs" "rs1 ! j' = Inr q" by simp_all
    with p2 have "m_offset a1 \<le> q \<and> q + sizeof (request_type (xs ! j')) \<le> m_offset a2"
      by blast
    with p1 a2 Suc show ?thesis by simp
  qed
  with p1 p2 rs a2 show ?case by simp
qed

text \<open>
  \<open>arena_inv\<close> holds of a constructed arena and is kept by both moves; that allocation
  keeps it is part of \<open>run_request_props\<close>.
\<close>

lemma arena_inv_new: "p \<noteq> 0 \<Longrightarrow> arena_inv (fst (ArenaAllocator_new n p h))"
  by (simp add: ArenaAllocator_new_def arena_inv_def)

lemma arena_inv_move_construct:
  "arena_inv a \<Longrightarrow> arena_inv (fst (move_construct a)) \<and> arena_inv (snd (move_construct a))"
  by (simp add: move_construct_def arena_inv_def)

lemma arena_inv_move_assign:
  "arena_inv a \<Longrightarrow> arena_inv b \<Longrightarrow>
   arena_inv (fst (move_assign a b)) \<and> arena_inv (snd (move_assign a b))"
  by (simp add: move_assign_def arena_inv_def)

lemma ctype_ok_2: "ctype_ok \<lparr>sizeof = 2, alignof = 2\<rparr>"
proof -
  have "(2::nat) = 2 ^ 1" by simp
  then have "\<exists>k. (2::nat) = 2 ^ k" by (rule exI)
  then show ?thesis by (simp add: ctype_ok_def)
qed

lemma ctype_ok_8: "ctype_ok \<lparr>sizeof = 8, alignof = 8\<rparr>"
proof -
  have "(8::nat) = 2 ^ 3" by simp
  then have "\<exists>k. (8::nat) = 2 ^ k" by (rule exI)
  then show ?thesis by (simp add: ctype_ok_def)
qed

section \<open>Precedence\<close>

text \<open>
  Claim C4. The precedence query depends on the token kind alone: 0 for \<open>plus\<close> and
  \<open>minus\<close>, 1 for \<open>star\<close> and \<open>fslash\<close>, no precedence for every other kind.
\<close>

theorem bin_prec_table:
  "bin_prec ty =
     (if ty = tk_plus \<or> ty = tk_minus then Some 0
      else if ty = tk_star \<or> ty = tk_fslash then Some 1
      else None)"
  by (cases ty) simp_all

section \<open>Line numbers and block comments\<close>

text \<open>
  Claim C1. The line number attached to tokens should grow with every newline consumed,
  also inside a block comment, so that \<^verbatim>\<open>"/* a\nb */ exit"\<close> gives one \<open>exit\<close> token on
  line 2. The loop of the block comment consumes the newline and leaves \<^verbatim>\<open>line_count\<close>
  alone: the code gives the token line 1.
\<close>

theorem block_comment_newline_not_counted:
  "tokenize (Tokenizer_new (''/* a'' @ [CHR 0x0A] @ ''b */ exit'')) =
     Inr ([\<lparr>type = tk_exit, line = 1, val = None\<rparr>],
          Tokenizer_new (''/* a'' @ [CHR 0x0A] @ ''b */ exit''))"
  by code_simp

text \<open>
  The sibling path: a line comment stops before its newline, the main loop counts it,
  and \<^verbatim>\<open>"// comment\nexit"\<close> gives \<open>exit\<close> on line 2.
\<close>

theorem line_comment_newline_counted:
  "tokenize (Tokenizer_new (''// comment'' @ [CHR 0x0A] @ ''exit'')) =
     Inr ([\<lparr>type = tk_exit, line = 2, val = None\<rparr>],
          Tokenizer_new (''// comment'' @ [CHR 0x0A] @ ''exit''))"
  by code_simp

section \<open>Unrecognized characters\<close>




section \<open>Keywords and identifiers\<close>

text \<open>
  Claim C6. Whenever the main loop reaches an alphabetic character, the run it takes is
  the maximal run of alphanumeric characters from there (it starts with that character,
  and behind it the text ends or goes on with a character that is not alphanumeric).
  The loop goes on behind the run with exactly one more token, the keyword when the
  whole run is a reserved spelling and the identifier carrying the run otherwise, and
  the result of tokenization is the tokens before the run, this token, and the tokens
  of the text behind the run. \<^verbatim>\<open>"iffy"\<close> gives the single token \<open>ident("iffy")\<close>.
\<close>

theorem word_maximal_munch:
  "(reaches (Tokenizer_new src, locals_init) (t, l) \<and> peek t 0 = Some c \<and> isalpha c \<longrightarrow>
     (let run = takeWhile isalnum (drop (m_index t) src);
          rest = drop (m_index t + length run) src;
          tok = spec_word_token run (line_count l)
      in run \<noteq> [] \<and> hd run = c \<and> list_all isalnum run \<and>
         drop (m_index t) src = run @ rest \<and> (rest = [] \<or> \<not> isalnum (hd rest)) \<and>
         (if run \<in> set [''exit'', ''let'', ''if'', ''elif'', ''else'', ''for'']
          then type tok \<noteq> tk_ident \<and> val tok = None \<and> line tok = line_count l
          else tok = \<lparr>type = tk_ident, line = line_count l, val = Some run\<rparr>) \<and>
         reaches (Tokenizer_new src, locals_init)
           (t\<lparr>m_index := m_index t + length run\<rparr>, l\<lparr>tokens := tokens l @ [tok]\<rparr>) \<and>
         tokenize (Tokenizer_new src) =
           (case scan_text rest (line_count l) of
              Inl e \<Rightarrow> Inl e
            | Inr ts \<Rightarrow> Inr (tokens l @ tok # ts, Tokenizer_new src)))) \<and>
   tokenize (Tokenizer_new ''iffy'') =
     Inr ([\<lparr>type = tk_ident, line = 1, val = Some ''iffy''\<rparr>], Tokenizer_new ''iffy'')"
proof (intro conjI impI)
  assume a: "reaches (Tokenizer_new src, locals_init) (t, l) \<and> peek t 0 = Some c \<and> isalpha c"
  then have r: "reaches (Tokenizer_new src, locals_init) (t, l)"
    and p0: "peek t 0 = Some c" and al: "isalpha c" by simp_all
  from reaches_inv[OF r] have src: "m_src t = src" and b: "buf l = []"
    by (simp_all add: Tokenizer_new_def locals_init_def)
  from p0 have inb: "m_index t < length (m_src t)" and c: "c = m_src t ! m_index t"
    by (simp_all add: peek_0 split: if_splits)
  let ?xs = "drop (m_index t) src"
  let ?run = "takeWhile isalnum ?xs"
  let ?rest = "drop (m_index t + length ?run) src"
  let ?tok = "spec_word_token ?run (line_count l)"
  from inb src have xs: "?xs = c # drop (Suc (m_index t)) src"
    by (simp add: c Cons_nth_drop_Suc)
  from al have an: "isalnum c" by (rule isalpha_isalnum)
  have 1: "?run \<noteq> []" and 2: "hd ?run = c" using xs an by simp_all
  have 3: "list_all isalnum ?run" by (auto simp: list_all_iff dest: set_takeWhileD)
  have rest: "?rest = dropWhile isalnum ?xs" by (simp add: dropWhile_eq_drop add.commute)
  have 4: "?xs = ?run @ ?rest" by (simp only: rest takeWhile_dropWhile_id)
  have 5: "?rest = [] \<or> \<not> isalnum (hd ?rest)"
    unfolding rest using hd_dropWhile[of isalnum ?xs] by blast
  from b have lb: "l\<lparr>tokens := ts, buf := []\<rparr> = l\<lparr>tokens := ts\<rparr>" for ts
    by (cases l) simp
  from tokenize_body_eq[OF inb c, of l] al b src
  have "tokenize_body c t l =
        Inr (t\<lparr>m_index := m_index t + length ?run\<rparr>, l\<lparr>tokens := tokens l @ [?tok]\<rparr>)"
    by (simp add: classify_word_eq lb)
  from reached_step[OF r p0 this]
  have 6: "reaches (Tokenizer_new src, locals_init)
           (t\<lparr>m_index := m_index t + length ?run\<rparr>, l\<lparr>tokens := tokens l @ [?tok]\<rparr>)"
    and 7: "tokenize (Tokenizer_new src) =
           (case scan_text ?rest (line_count l) of
              Inl e \<Rightarrow> Inl e
            | Inr ts \<Rightarrow> Inr (tokens l @ ?tok # ts, Tokenizer_new src))"
    by (simp_all split: sum.splits)
  have 8: "if ?run \<in> set [''exit'', ''let'', ''if'', ''elif'', ''else'', ''for'']
          then type ?tok \<noteq> tk_ident \<and> val ?tok = None \<and> line ?tok = line_count l
          else ?tok = \<lparr>type = tk_ident, line = line_count l, val = Some ?run\<rparr>"
    by (simp add: spec_word_token_def keyword_of_def)
  from 1 2 3 4 5 6 7 8
  show "let run = takeWhile isalnum (drop (m_index t) src);
          rest = drop (m_index t + length run) src;
          tok = spec_word_token run (line_count l)
      in run \<noteq> [] \<and> hd run = c \<and> list_all isalnum run \<and>
         drop (m_index t) src = run @ rest \<and> (rest = [] \<or> \<not> isalnum (hd rest)) \<and>
         (if run \<in> set [''exit'', ''let'', ''if'', ''elif'', ''else'', ''for'']
          then type tok \<noteq> tk_ident \<and> val tok = None \<and> line tok = line_count l
          else tok = \<lparr>type = tk_ident, line = line_count l, val = Some run\<rparr>) \<and>
         reaches (Tokenizer_new src, locals_init)
           (t\<lparr>m_index := m_index t + length run\<rparr>, l\<lparr>tokens := tokens l @ [tok]\<rparr>) \<and>
         tokenize (Tokenizer_new src) =
           (case scan_text rest (line_count l) of
              Inl e \<Rightarrow> Inl e
            | Inr ts \<Rightarrow> Inr (tokens l @ tok # ts, Tokenizer_new src))"
    unfolding Let_def by blast
next
  show "tokenize (Tokenizer_new ''iffy'') =
     Inr ([\<lparr>type = tk_ident, line = 1, val = Some ''iffy''\<rparr>], Tokenizer_new ''iffy'')"
    by code_simp
qed

theorem word_maximal_munch_witness:
  "reaches (Tokenizer_new ''let if(x)'', locals_init)
     (\<lparr>m_src = ''let if(x)'', m_index = 4\<rparr>,
      \<lparr>tokens = [\<lparr>type = tk_let, line = 1, val = None\<rparr>], buf = [], line_count = 1\<rparr>) \<and>
   peek \<lparr>m_src = ''let if(x)'', m_index = 4\<rparr> 0 = Some (CHR ''i'') \<and> isalpha (CHR ''i'') \<and>
   takeWhile isalnum (drop 4 ''let if(x)'') = ''if'' \<and>
   spec_word_token ''if'' 1 = \<lparr>type = tk_if, line = 1, val = None\<rparr> \<and>
   tokenize (Tokenizer_new ''let if(x)'') =
     Inr ([\<lparr>type = tk_let, line = 1, val = None\<rparr>,
           \<lparr>type = tk_if, line = 1, val = None\<rparr>,
           \<lparr>type = tk_open_paren, line = 1, val = None\<rparr>,
           \<lparr>type = tk_ident, line = 1, val = Some ''x''\<rparr>,
           \<lparr>type = tk_close_paren, line = 1, val = None\<rparr>], Tokenizer_new ''let if(x)'')"
proof -
  let ?s = "''let if(x)''"
  let ?l = "\<lparr>tokens = [\<lparr>type = tk_let, line = 1, val = None\<rparr>], buf = [], line_count = 1\<rparr>"
  let ?t = "\<lparr>m_src = ?s, m_index = 4\<rparr>"
  have p0: "peek (Tokenizer_new ?s) 0 = Some (CHR ''l'')" by code_simp
  have b0: "tokenize_body (CHR ''l'') (Tokenizer_new ?s) locals_init = Inr (\<lparr>m_src = ?s, m_index = 3\<rparr>, ?l)"
    by code_simp
  have p3: "peek \<lparr>m_src = ?s, m_index = 3\<rparr> 0 = Some (CHR '' '')" by code_simp
  have b3: "tokenize_body (CHR '' '') \<lparr>m_src = ?s, m_index = 3\<rparr> ?l = Inr (?t, ?l)"
    by code_simp
  note r = reaches.step[OF reaches.step[OF reaches.here p0 b0] p3 b3]
  have 1: "peek ?t 0 = Some (CHR ''i'')" by code_simp
  have 2: "isalpha (CHR ''i'')" by code_simp
  have 3: "takeWhile isalnum (drop 4 ?s) = ''if''" by code_simp
  have 4: "spec_word_token ''if'' 1 = \<lparr>type = tk_if, line = 1, val = None\<rparr>" by code_simp
  have 5: "scan_text ''(x)'' 1 =
      Inr [\<lparr>type = tk_open_paren, line = 1, val = None\<rparr>,
           \<lparr>type = tk_ident, line = 1, val = Some ''x''\<rparr>,
           \<lparr>type = tk_close_paren, line = 1, val = None\<rparr>]" by code_simp
  have w3: "takeWhile isalnum (drop (m_index ?t) ?s) = ''if''" by code_simp
  have w4: "drop (m_index ?t + length ''if'') ?s = ''(x)''" by code_simp
  have lc: "line_count ?l = 1" and tk: "tokens ?l = [\<lparr>type = tk_let, line = 1, val = None\<rparr>]"
    by simp_all
  from word_maximal_munch[of ?s ?t ?l "CHR ''i''"] r 1 2
  have "tokenize (Tokenizer_new ?s) =
           (case scan_text (drop (m_index ?t + length (takeWhile isalnum (drop (m_index ?t) ?s))) ?s)
                   (line_count ?l) of
              Inl e \<Rightarrow> Inl e
            | Inr ts \<Rightarrow> Inr (tokens ?l @
                 spec_word_token (takeWhile isalnum (drop (m_index ?t) ?s)) (line_count ?l) # ts,
                 Tokenizer_new ?s))"
    unfolding Let_def by blast
  then have "tokenize (Tokenizer_new ?s) =
     Inr ([\<lparr>type = tk_let, line = 1, val = None\<rparr>,
           \<lparr>type = tk_if, line = 1, val = None\<rparr>,
           \<lparr>type = tk_open_paren, line = 1, val = None\<rparr>,
           \<lparr>type = tk_ident, line = 1, val = Some ''x''\<rparr>,
           \<lparr>type = tk_close_paren, line = 1, val = None\<rparr>], Tokenizer_new ?s)"
    unfolding w3 w4 lc tk 4 5 by simp
  with r 1 2 3 4 show ?thesis by blast
qed

section \<open>Unterminated block comments\<close>

text \<open>
  Claim C7. When the main loop reaches \<^verbatim>\<open>/*\<close> and no \<^verbatim>\<open>*/\<close> follows, tokenization
  consumes the rest of the input, raises no error and returns the tokens accumulated
  before the opener.
\<close>

theorem unterminated_block_comment:
  assumes r: "reaches (Tokenizer_new src, locals_init) (t, l)"
    and p0: "peek t 0 = Some (CHR ''/'')" and p1: "peek t 1 = Some (CHR ''*'')"
    and nc: "\<not> contains_close (drop (m_index t + 2) src)"
  shows "tokenize (Tokenizer_new src) = Inr (tokens l, Tokenizer_new src) \<and>
         tokenize_loop (Tokenizer_new src) locals_init =
           Inr (\<lparr>m_src = src, m_index = length src\<rparr>, l)"
proof -
  from reaches_inv[OF r] have src: "m_src t = src" by (simp add: Tokenizer_new_def locals_init_def)
  from p0 have inb: "m_index t < length (m_src t)" and c: "m_src t ! m_index t = CHR ''/''"
    by (simp_all add: peek_0 split: if_splits)
  from p1 have inb1: "Suc (m_index t) < length (m_src t)"
    by (simp add: peek_1 split: if_splits)
  have na: "\<not> isalpha (CHR ''/'')" and nd: "\<not> isdigit (CHR ''/'')"
    by (simp_all add: isalpha_def isdigit_def)
  from tokenize_body_eq[OF inb c[symmetric], of l] na nd p1
  have "tokenize_body (m_src t ! m_index t) t l = Inr (t\<lparr>m_index := block_end (m_src t) (m_index t)\<rparr>, l)"
    by (simp add: c)
  with block_end_no_close[OF inb1] nc src
  have "tokenize_body (m_src t ! m_index t) t l = Inr (t\<lparr>m_index := length (m_src t)\<rparr>, l)"
    by simp
  from tokenize_loop_step[OF inb this]
  have "tokenize_loop t l = Inr (t\<lparr>m_index := length (m_src t)\<rparr>, l)"
    by (simp add: tokenize_loop_end)
  with reaches_loop[OF r] src
  have e: "tokenize_loop (Tokenizer_new src) locals_init = Inr (t\<lparr>m_index := length src\<rparr>, l)"
    by simp
  from src have "t\<lparr>m_index := length src\<rparr> = \<lparr>m_src = src, m_index = length src\<rparr>"
    by (cases t) simp
  with e have e': "tokenize_loop (Tokenizer_new src) locals_init =
           Inr (\<lparr>m_src = src, m_index = length src\<rparr>, l)" by simp
  then show ?thesis by (simp add: tokenize_def Tokenizer_new_def)
qed

theorem unterminated_block_comment_witness:
  "reaches (Tokenizer_new ''exit /* a * / b'', locals_init)
     (\<lparr>m_src = ''exit /* a * / b'', m_index = 5\<rparr>,
      \<lparr>tokens = [\<lparr>type = tk_exit, line = 1, val = None\<rparr>], buf = [], line_count = 1\<rparr>) \<and>
   peek \<lparr>m_src = ''exit /* a * / b'', m_index = 5\<rparr> 0 = Some (CHR ''/'') \<and>
   peek \<lparr>m_src = ''exit /* a * / b'', m_index = 5\<rparr> 1 = Some (CHR ''*'') \<and>
   \<not> contains_close (drop 7 ''exit /* a * / b'') \<and>
   tokenize (Tokenizer_new ''exit /* a * / b'') =
     Inr ([\<lparr>type = tk_exit, line = 1, val = None\<rparr>], Tokenizer_new ''exit /* a * / b'') \<and>
   tokenize_loop (Tokenizer_new ''exit /* a * / b'') locals_init =
     Inr (\<lparr>m_src = ''exit /* a * / b'', m_index = 15\<rparr>,
          \<lparr>tokens = [\<lparr>type = tk_exit, line = 1, val = None\<rparr>], buf = [], line_count = 1\<rparr>)"
proof -
  let ?s = "''exit /* a * / b''"
  let ?l = "\<lparr>tokens = [\<lparr>type = tk_exit, line = 1, val = None\<rparr>], buf = [], line_count = 1\<rparr>"
  have p0: "peek (Tokenizer_new ?s) 0 = Some (CHR ''e'')" by code_simp
  have b0: "tokenize_body (CHR ''e'') (Tokenizer_new ?s) locals_init = Inr (\<lparr>m_src = ?s, m_index = 4\<rparr>, ?l)"
    by code_simp
  have p4: "peek \<lparr>m_src = ?s, m_index = 4\<rparr> 0 = Some (CHR '' '')" by code_simp
  have b4: "tokenize_body (CHR '' '') \<lparr>m_src = ?s, m_index = 4\<rparr> ?l = Inr (\<lparr>m_src = ?s, m_index = 5\<rparr>, ?l)"
    by code_simp
  note r = reaches.step[OF reaches.step[OF reaches.here p0 b0] p4 b4]
  have 1: "peek \<lparr>m_src = ?s, m_index = 5\<rparr> 0 = Some (CHR ''/'')" by code_simp
  have 2: "peek \<lparr>m_src = ?s, m_index = 5\<rparr> 1 = Some (CHR ''*'')" by code_simp
  have 3: "\<not> contains_close (drop (m_index \<lparr>m_src = ?s, m_index = 5\<rparr> + 2) ?s)" by code_simp
  have 4: "\<not> contains_close (drop 7 ?s)" by code_simp
  from unterminated_block_comment[OF r 1 2 3] r 1 2 4 show ?thesis by simp
qed

section \<open>Reads stay in bounds\<close>

text \<open>
  Claim C9. No read of the pass is out of the bounds of the source: \<^verbatim>\<open>consume\<close> never
  meets its \<^verbatim>\<open>out_of_range\<close> branch, and the pass ends either with the fatal lexical
  error or with the cursor exactly at the end of the input.
\<close>

theorem tokenize_reads_in_bounds:
  "tokenize (Tokenizer_new src) \<noteq> Inl out_of_range \<and>
   (tokenize_loop (Tokenizer_new src) locals_init = Inl invalid_token \<or>
    (\<exists>l'. tokenize_loop (Tokenizer_new src) locals_init =
            Inr (\<lparr>m_src = src, m_index = length src\<rparr>, l')))"
proof -
  have "m_index (Tokenizer_new src) \<le> length (m_src (Tokenizer_new src))"
    by (simp add: Tokenizer_new_def)
  from tokenize_loop_safe[OF this, of locals_init]
  have d: "tokenize_loop (Tokenizer_new src) locals_init = Inl invalid_token \<or>
    (\<exists>l'. tokenize_loop (Tokenizer_new src) locals_init =
            Inr (\<lparr>m_src = src, m_index = length src\<rparr>, l'))"
    by (simp add: Tokenizer_new_def)
  then have "tokenize (Tokenizer_new src) \<noteq> Inl out_of_range"
    by (auto simp: tokenize_def)
  with d show ?thesis by blast
qed

theorem tokenize_reads_in_bounds_witness:
  "tokenize (Tokenizer_new ''let x = 5 ;'') \<noteq> Inl out_of_range \<and>
   tokenize_loop (Tokenizer_new ''let x = 5 ;'') locals_init =
     Inr (\<lparr>m_src = ''let x = 5 ;'', m_index = 11\<rparr>,
          \<lparr>tokens = [\<lparr>type = tk_let, line = 1, val = None\<rparr>,
                     \<lparr>type = tk_ident, line = 1, val = Some ''x''\<rparr>,
                     \<lparr>type = tk_eq, line = 1, val = None\<rparr>,
                     \<lparr>type = tk_int_lit, line = 1, val = Some ''5''\<rparr>,
                     \<lparr>type = tk_semi, line = 1, val = None\<rparr>],
           buf = [], line_count = 1\<rparr>)"
proof -
  have e: "tokenize_loop (Tokenizer_new ''let x = 5 ;'') locals_init =
     Inr (\<lparr>m_src = ''let x = 5 ;'', m_index = 11\<rparr>,
          \<lparr>tokens = [\<lparr>type = tk_let, line = 1, val = None\<rparr>,
                     \<lparr>type = tk_ident, line = 1, val = Some ''x''\<rparr>,
                     \<lparr>type = tk_eq, line = 1, val = None\<rparr>,
                     \<lparr>type = tk_int_lit, line = 1, val = Some ''5''\<rparr>,
                     \<lparr>type = tk_semi, line = 1, val = None\<rparr>],
           buf = [], line_count = 1\<rparr>)"
    by code_simp
  from tokenize_reads_in_bounds[of "''let x = 5 ;''"] e show ?thesis by simp
qed

section \<open>The returned tokens\<close>

text \<open>
  Claim C10, as stated, fails where the 32-bit line counter wraps around: on
  \<^verbatim>\<open>x\<close>, 2147483647 newlines and \<^verbatim>\<open>y\<close> the two tokens get the lines 1 and
  \<open>- 2147483648\<close>.
\<close>

theorem line_counter_overflow_counterexample:
  "tokenize (Tokenizer_new (''x'' @ replicate 2147483647 (CHR 0x0A) @ ''y'')) =
     Inr ([\<lparr>type = tk_ident, line = 1, val = Some ''x''\<rparr>,
           \<lparr>type = tk_ident, line = 2147483648, val = Some ''y''\<rparr>],
          Tokenizer_new (''x'' @ replicate 2147483647 (CHR 0x0A) @ ''y'')) \<and>
   sint (2147483648 :: 32 word) = - 2147483648 \<and>
   \<not> sorted (map (\<lambda>tk. sint (line tk))
        [\<lparr>type = tk_ident, line = 1, val = Some ''x''\<rparr>,
         \<lparr>type = tk_ident, line = 2147483648, val = Some ''y''\<rparr>])"
proof -
  have w: "(1 + of_nat 2147483647 :: 32 word) = 2147483648" by simp
  have pos: "0 < (2147483647 :: nat)" by simp
  note g = tokenize_across_newlines[OF pos, unfolded w]
  have s: "sint (2147483648 :: 32 word) = - 2147483648" by simp
  have ns: "\<not> sorted (map (\<lambda>tk. sint (line tk))
        [\<lparr>type = tk_ident, line = 1, val = Some ''x''\<rparr>,
         \<lparr>type = tk_ident, line = 2147483648, val = Some ''y''\<rparr>])"
    by simp
  from g s ns show ?thesis by (intro conjI)
qed

text \<open>
  Claim C10, amended. When tokenization succeeds, a token has a payload exactly when it
  is an identifier or an integer literal, and the payload is then not empty. When the
  input has fewer than 2147483647 newline characters, the line numbers of the tokens
  never decrease and the first is at least 1.
\<close>

theorem tokenize_tokens_wellformed:
  assumes "tokenize (Tokenizer_new src) = Inr (ts, t')"
  shows "(\<forall>tk \<in> set ts. ((val tk \<noteq> None) = (type tk = tk_ident \<or> type tk = tk_int_lit)) \<and>
                    val tk \<noteq> Some []) \<and>
         (count_list src (CHR 0x0A) < 2147483647 \<longrightarrow>
            sorted (map (\<lambda>tk. sint (line tk)) ts) \<and> (ts \<noteq> [] \<longrightarrow> 1 \<le> sint (line (hd ts))))"
proof -
  from assms obtain t1 l1 where r: "tokenize_loop (Tokenizer_new src) locals_init = Inr (t1, l1)"
    and ts: "ts = tokens l1"
    by (auto simp: tokenize_def bindE_Inr_iff)
  have "payload_ok locals_init" by (simp add: payload_ok_def locals_init_def)
  from tokenize_loop_payload_ok[OF this r] ts
  have 1: "\<forall>tk \<in> set ts. ((val tk \<noteq> None) = (type tk = tk_ident \<or> type tk = tk_int_lit)) \<and>
                    val tk \<noteq> Some []"
    by (simp add: payload_ok_def token_ok_def)
  have 2: "sorted (map (\<lambda>tk. sint (line tk)) ts) \<and> (ts \<noteq> [] \<longrightarrow> 1 \<le> sint (line (hd ts)))"
    if few: "count_list src (CHR 0x0A) < 2147483647"
  proof -
    have b: "buf locals_init = []" and ok: "lines_ok (Tokenizer_new src) locals_init"
      by (simp_all add: lines_ok_def locals_init_def Tokenizer_new_def)
    from few have "count_list (m_src (Tokenizer_new src)) (CHR 0x0A) < 2147483647"
      by (simp add: Tokenizer_new_def)
    from tokenize_loop_lines_ok[OF b ok this r] ts show ?thesis
      by (auto simp: lines_ok_def)
  qed
  from 1 2 show ?thesis by blast
qed

theorem tokenize_tokens_wellformed_witness:
  "tokenize (Tokenizer_new (''let x = 5 ;'' @ [CHR 0x0A] @ ''exit'')) =
     Inr ([\<lparr>type = tk_let, line = 1, val = None\<rparr>,
           \<lparr>type = tk_ident, line = 1, val = Some ''x''\<rparr>,
           \<lparr>type = tk_eq, line = 1, val = None\<rparr>,
           \<lparr>type = tk_int_lit, line = 1, val = Some ''5''\<rparr>,
           \<lparr>type = tk_semi, line = 1, val = None\<rparr>,
           \<lparr>type = tk_exit, line = 2, val = None\<rparr>],
          Tokenizer_new (''let x = 5 ;'' @ [CHR 0x0A] @ ''exit'')) \<and>
   count_list (''let x = 5 ;'' @ [CHR 0x0A] @ ''exit'') (CHR 0x0A) < 2147483647 \<and>
   sorted (map (\<lambda>tk. sint (line tk))
          [\<lparr>type = tk_let, line = 1, val = None\<rparr>,
           \<lparr>type = tk_ident, line = 1, val = Some ''x''\<rparr>,
           \<lparr>type = tk_eq, line = 1, val = None\<rparr>,
           \<lparr>type = tk_int_lit, line = 1, val = Some ''5''\<rparr>,
           \<lparr>type = tk_semi, line = 1, val = None\<rparr>,
           \<lparr>type = tk_exit, line = 2, val = None\<rparr>])"
proof -
  have e: "tokenize (Tokenizer_new (''let x = 5 ;'' @ [CHR 0x0A] @ ''exit'')) =
     Inr ([\<lparr>type = tk_let, line = 1, val = None\<rparr>,
           \<lparr>type = tk_ident, line = 1, val = Some ''x''\<rparr>,
           \<lparr>type = tk_eq, line = 1, val = None\<rparr>,
           \<lparr>type = tk_int_lit, line = 1, val = Some ''5''\<rparr>,
           \<lparr>type = tk_semi, line = 1, val = None\<rparr>,
           \<lparr>type = tk_exit, line = 2, val = None\<rparr>],
          Tokenizer_new (''let x = 5 ;'' @ [CHR 0x0A] @ ''exit''))"
    by code_simp
  have few: "count_list (''let x = 5 ;'' @ [CHR 0x0A] @ ''exit'') (CHR 0x0A) < 2147483647"
    by simp
  from tokenize_tokens_wellformed[OF e] few e show ?thesis by blast
qed

section \<open>Ownership transfer\<close>

text \<open>
  Claim C2, as stated, fails for move assignment: it swaps the members, so the old owner
  is left with the buffer, the capacity and the cursor that the target had, not with a
  null buffer, and its destruction releases that buffer.
\<close>

theorem move_assign_counterexample:
  "m_buffer (snd (move_assign \<lparr>m_size = 8, m_buffer = 100, m_offset = 100\<rparr>
                              \<lparr>m_size = 16, m_buffer = 200, m_offset = 204\<rparr>)) = 100 \<and>
   m_size (snd (move_assign \<lparr>m_size = 8, m_buffer = 100, m_offset = 100\<rparr>
                            \<lparr>m_size = 16, m_buffer = 200, m_offset = 204\<rparr>)) = 8 \<and>
   destroy (snd (move_assign \<lparr>m_size = 8, m_buffer = 100, m_offset = 100\<rparr>
                             \<lparr>m_size = 16, m_buffer = 200, m_offset = 204\<rparr>)) {100, 200} = Inr {200}"
  by (simp add: move_assign_def destroy_def delete_array_def)

text \<open>
  Claim C2, amended. In both transfers the new owner receives the buffer pointer, the
  capacity and the cursor. After move construction the old owner has a null buffer and
  capacity 0, and destroying it changes nothing. After move assignment the old owner has
  what the target had before: destroying it is \<^verbatim>\<open>delete[]\<close> of the target's former
  buffer, which changes nothing when that was null and releases it otherwise; a live
  buffer of the new owner stays live, and both arenas stay well formed.
\<close>

theorem move_transfers_ownership:
  "(case move_construct other of (new, old) \<Rightarrow>
      m_buffer new = m_buffer other \<and> m_size new = m_size other \<and> m_offset new = m_offset other \<and>
      m_buffer old = 0 \<and> m_size old = 0 \<and> m_offset old = 0 \<and>
      destroy old h = Inr h) \<and>
   (case move_assign this other of (new, old) \<Rightarrow>
      m_buffer new = m_buffer other \<and> m_size new = m_size other \<and> m_offset new = m_offset other \<and>
      m_buffer old = m_buffer this \<and> m_size old = m_size this \<and> m_offset old = m_offset this \<and>
      destroy old h = delete_array (m_buffer this) h \<and>
      (m_buffer this = 0 \<longrightarrow> destroy old h = Inr h) \<and>
      (m_buffer this \<noteq> 0 \<and> m_buffer this \<in> h \<longrightarrow> destroy old h = Inr (h - {m_buffer this})) \<and>
      (m_buffer other \<in> h \<and> m_buffer other \<noteq> m_buffer this \<longrightarrow>
         (\<forall>h'. destroy old h = Inr h' \<longrightarrow> m_buffer new \<in> h')) \<and>
      (arena_inv this \<and> arena_inv other \<longrightarrow> arena_inv new \<and> arena_inv old))"
  by (auto simp: move_construct_def move_assign_def destroy_def delete_array_def arena_inv_def)

theorem move_transfers_ownership_witness:
  "(case move_construct \<lparr>m_size = 16, m_buffer = 200, m_offset = 204\<rparr> of (new, old) \<Rightarrow>
      new = \<lparr>m_size = 16, m_buffer = 200, m_offset = 204\<rparr> \<and>
      old = \<lparr>m_size = 0, m_buffer = 0, m_offset = 0\<rparr> \<and>
      destroy old {100, 200} = Inr {100, 200}) \<and>
   (case move_assign \<lparr>m_size = 8, m_buffer = 100, m_offset = 100\<rparr>
                     \<lparr>m_size = 16, m_buffer = 200, m_offset = 204\<rparr> of (new, old) \<Rightarrow>
      new = \<lparr>m_size = 16, m_buffer = 200, m_offset = 204\<rparr> \<and>
      old = \<lparr>m_size = 8, m_buffer = 100, m_offset = 100\<rparr> \<and>
      destroy old {100, 200} = Inr ({100, 200} - {100}) \<and> m_buffer new \<in> {100, 200} - {100}) \<and>
   (case move_assign \<lparr>m_size = 8, m_buffer = 100, m_offset = 100\<rparr>
                     \<lparr>m_size = 0, m_buffer = 0, m_offset = 0\<rparr> of (new, old) \<Rightarrow>
      new = \<lparr>m_size = 0, m_buffer = 0, m_offset = 0\<rparr> \<and>
      old = \<lparr>m_size = 8, m_buffer = 100, m_offset = 100\<rparr> \<and>
      destroy old {100} = Inr ({100} - {100})) \<and>
   (case move_assign \<lparr>m_size = 0, m_buffer = 0, m_offset = 0\<rparr>
                     \<lparr>m_size = 16, m_buffer = 200, m_offset = 204\<rparr> of (new, old) \<Rightarrow>
      new = \<lparr>m_size = 16, m_buffer = 200, m_offset = 204\<rparr> \<and>
      old = \<lparr>m_size = 0, m_buffer = 0, m_offset = 0\<rparr> \<and>
      destroy old {200} = Inr {200})"
  using
    move_transfers_ownership[of "\<lparr>m_size = 16, m_buffer = 200, m_offset = 204\<rparr>" "{100, 200}"
      "\<lparr>m_size = 8, m_buffer = 100, m_offset = 100\<rparr>"]
    move_transfers_ownership[of "\<lparr>m_size = 0, m_buffer = 0, m_offset = 0\<rparr>" "{100}"
      "\<lparr>m_size = 8, m_buffer = 100, m_offset = 100\<rparr>"]
    move_transfers_ownership[of "\<lparr>m_size = 16, m_buffer = 200, m_offset = 204\<rparr>" "{200}"
      "\<lparr>m_size = 0, m_buffer = 0, m_offset = 0\<rparr>"]
  by (simp add: move_construct_def move_assign_def destroy_def delete_array_def)

section \<open>Exhaustion of the arena\<close>

text \<open>
  Claim C3. After any sequence of requests on an arena, the next request is granted
  exactly when some address at or after the cursor satisfies the alignment and leaves
  \<^verbatim>\<open>sizeof(T)\<close> bytes before the end of the buffer, and fails with \<^verbatim>\<open>std::bad_alloc\<close>
  otherwise. A granted range is aligned, lies within the buffer and begins at or after
  the end of every range granted before, each of which lies within the buffer too.
\<close>

theorem alloc_until_exhausted:
  assumes inv: "arena_inv a" and okxs: "\<forall>r \<in> set xs. ctype_ok (request_type r)"
    and okr: "ctype_ok (request_type r)"
  shows "case run_requests xs (a, mem) of (rs, a1, mem1) \<Rightarrow>
         case run_request r (a1, mem1) of (res, a2, mem2) \<Rightarrow>
           length rs = length xs \<and>
           (case res of
              Inl e \<Rightarrow> e = bad_alloc \<and> \<not> fits (request_type r) a1
            | Inr p \<Rightarrow>
                fits (request_type r) a1 \<and> alignof (request_type r) dvd p \<and>
                m_buffer a \<le> p \<and> p + sizeof (request_type r) \<le> m_buffer a + m_size a \<and>
                (\<forall>j < length xs. \<forall>q. rs ! j = Inr q \<longrightarrow>
                   m_buffer a \<le> q \<and> q + sizeof (request_type (xs ! j)) \<le> p))"
proof -
  obtain rs a1 mem1 where hist: "run_requests xs (a, mem) = (rs, a1, mem1)"
    by (cases "run_requests xs (a, mem)") auto
  obtain res a2 mem2 where one: "run_request r (a1, mem1) = (res, a2, mem2)"
    by (cases "run_request r (a1, mem1)") auto
  note h = run_requests_props[OF inv okxs hist]
  then have inv1: "arena_inv a1" by simp
  note s = run_request_props[OF inv1 okr one]
  from inv have b: "m_buffer a \<le> m_offset a" by (simp add: arena_inv_def)
  have "length rs = length xs" using h by simp
  moreover have "case res of
              Inl e \<Rightarrow> e = bad_alloc \<and> \<not> fits (request_type r) a1
            | Inr p \<Rightarrow>
                fits (request_type r) a1 \<and> alignof (request_type r) dvd p \<and>
                m_buffer a \<le> p \<and> p + sizeof (request_type r) \<le> m_buffer a + m_size a \<and>
                (\<forall>j < length xs. \<forall>q. rs ! j = Inr q \<longrightarrow>
                   m_buffer a \<le> q \<and> q + sizeof (request_type (xs ! j)) \<le> p)"
  proof (cases res)
    case (Inl e)
    with s show ?thesis by simp
  next
    case (Inr p)
    with s have f: "fits (request_type r) a1" and d: "alignof (request_type r) dvd p"
      and ge: "m_offset a1 \<le> p" and off: "m_offset a2 = p + sizeof (request_type r)"
      and inv2: "arena_inv a2" and same: "m_buffer a2 = m_buffer a1" "m_size a2 = m_size a1"
      by simp_all
    from h b ge have lo: "m_buffer a \<le> p" by simp
    from inv2 off same h have hi: "p + sizeof (request_type r) \<le> m_buffer a + m_size a"
      by (simp add: arena_inv_def)
    have "m_buffer a \<le> q \<and> q + sizeof (request_type (xs ! j)) \<le> p"
      if "j < length xs" "rs ! j = Inr q" for j q
      using h that b ge by (meson le_trans)
    with Inr f d lo hi show ?thesis by simp
  qed
  ultimately show ?thesis by (simp add: hist one)
qed

theorem alloc_until_exhausted_witness:
  "arena_inv (fst (ArenaAllocator_new 16 1000 {})) \<and>
   fst (run_requests [Alloc \<lparr>sizeof = 2, alignof = 2\<rparr>, Emplace \<lparr>sizeof = 8, alignof = 8\<rparr> (42::nat)]
          (fst (ArenaAllocator_new 16 1000 {}), Map.empty)) = [Inr 1000, Inr 1008] \<and>
   fst (snd (run_requests [Alloc \<lparr>sizeof = 2, alignof = 2\<rparr>, Emplace \<lparr>sizeof = 8, alignof = 8\<rparr> (42::nat)]
          (fst (ArenaAllocator_new 16 1000 {}), Map.empty))) =
     \<lparr>m_size = 16, m_buffer = 1000, m_offset = 1016\<rparr> \<and>
   \<not> fits \<lparr>sizeof = 8, alignof = 8\<rparr> \<lparr>m_size = 16, m_buffer = 1000, m_offset = 1016\<rparr> \<and>
   fst (run_request (Alloc \<lparr>sizeof = 8, alignof = 8\<rparr>)
          (\<lparr>m_size = 16, m_buffer = 1000, m_offset = 1016\<rparr>, Map.empty :: nat \<rightharpoonup> nat)) = Inl bad_alloc \<and>
   fits \<lparr>sizeof = 8, alignof = 8\<rparr> \<lparr>m_size = 16, m_buffer = 1000, m_offset = 1002\<rparr>"
proof -
  let ?a = "fst (ArenaAllocator_new 16 1000 {})"
  let ?xs = "[Alloc \<lparr>sizeof = 2, alignof = 2\<rparr>, Emplace \<lparr>sizeof = 8, alignof = 8\<rparr> (42::nat)]"
  have inv: "arena_inv ?a" by (rule arena_inv_new) simp
  have okxs: "\<forall>r \<in> set ?xs. ctype_ok (request_type r)" by (simp add: ctype_ok_2 ctype_ok_8)
  have okr: "ctype_ok (request_type (Alloc \<lparr>sizeof = 8, alignof = 8\<rparr> :: nat request))"
    by (simp add: ctype_ok_8)
  have 1: "fst (run_requests ?xs (?a, Map.empty)) = [Inr 1000, Inr 1008]" by code_simp
  have 2: "fst (snd (run_requests ?xs (?a, Map.empty))) = \<lparr>m_size = 16, m_buffer = 1000, m_offset = 1016\<rparr>"
    by code_simp
  have 3: "fst (run_request (Alloc \<lparr>sizeof = 8, alignof = 8\<rparr>)
          (\<lparr>m_size = 16, m_buffer = 1000, m_offset = 1016\<rparr>, Map.empty :: nat \<rightharpoonup> nat)) = Inl bad_alloc"
    by code_simp
  have 4: "fits \<lparr>sizeof = 8, alignof = 8\<rparr> \<lparr>m_size = 16, m_buffer = 1000, m_offset = 1002\<rparr>"
    by code_simp
  from alloc_until_exhausted[OF inv okxs okr, of Map.empty] 2 3
  have 5: "\<not> fits \<lparr>sizeof = 8, alignof = 8\<rparr> \<lparr>m_size = 16, m_buffer = 1000, m_offset = 1016\<rparr>"
    by (auto split: prod.splits sum.splits)
  from inv 1 2 3 4 5 show ?thesis by blast
qed

section \<open>The cursor\<close>

text \<open>
  Claim C8. Over any sequence of \<^verbatim>\<open>alloc\<close> and \<^verbatim>\<open>emplace\<close> requests the cursor never moves
  backward; after a request that succeeds it is the aligned address plus the size, at
  most the end of the buffer; a request that fails leaves the arena as it was.
\<close>

theorem cursor_never_backward:
  assumes inv: "arena_inv a" and okxs: "\<forall>r \<in> set xs. ctype_ok (request_type r)"
    and okr: "ctype_ok (request_type r)"
  shows "case run_requests xs (a, mem) of (rs, a1, mem1) \<Rightarrow>
         case run_request r (a1, mem1) of (res, a2, mem2) \<Rightarrow>
           m_offset a \<le> m_offset a1 \<and> m_offset a1 \<le> m_offset a2 \<and>
           m_offset a2 \<le> m_buffer a2 + m_size a2 \<and>
           m_buffer a2 = m_buffer a \<and> m_size a2 = m_size a \<and>
           (case res of
              Inl e \<Rightarrow> a2 = a1
            | Inr p \<Rightarrow> m_offset a1 \<le> p \<and> m_offset a2 = p + sizeof (request_type r))"
proof -
  obtain rs a1 mem1 where hist: "run_requests xs (a, mem) = (rs, a1, mem1)"
    by (cases "run_requests xs (a, mem)") auto
  obtain res a2 mem2 where one: "run_request r (a1, mem1) = (res, a2, mem2)"
    by (cases "run_request r (a1, mem1)") auto
  note h = run_requests_props[OF inv okxs hist]
  then have inv1: "arena_inv a1" by simp
  note s = run_request_props[OF inv1 okr one]
  then have "arena_inv a2" by simp
  then have "m_offset a2 \<le> m_buffer a2 + m_size a2" by (simp add: arena_inv_def)
  moreover have "case res of
              Inl e \<Rightarrow> a2 = a1
            | Inr p \<Rightarrow> m_offset a1 \<le> p \<and> m_offset a2 = p + sizeof (request_type r)"
    using s by (cases res) simp_all
  ultimately show ?thesis using h s by (simp add: hist one)
qed

theorem cursor_never_backward_witness:
  "arena_inv (fst (ArenaAllocator_new 16 1000 {})) \<and>
   fst (snd (run_requests [Emplace \<lparr>sizeof = 2, alignof = 2\<rparr> (7::nat)]
          (fst (ArenaAllocator_new 16 1000 {}), Map.empty))) =
     \<lparr>m_size = 16, m_buffer = 1000, m_offset = 1002\<rparr> \<and>
   fst (run_request (Alloc \<lparr>sizeof = 8, alignof = 8\<rparr>)
          (\<lparr>m_size = 16, m_buffer = 1000, m_offset = 1002\<rparr>, Map.empty :: nat \<rightharpoonup> nat)) = Inr 1008 \<and>
   m_offset (fst (snd (run_request (Alloc \<lparr>sizeof = 8, alignof = 8\<rparr>)
          (\<lparr>m_size = 16, m_buffer = 1000, m_offset = 1002\<rparr>, Map.empty :: nat \<rightharpoonup> nat)))) = 1016 \<and>
   (1002::nat) \<le> 1016 \<and> (1016::nat) \<le> 1000 + 16"
proof -
  let ?a = "fst (ArenaAllocator_new 16 1000 {})"
  let ?xs = "[Emplace \<lparr>sizeof = 2, alignof = 2\<rparr> (7::nat)]"
  let ?r = "Alloc \<lparr>sizeof = 8, alignof = 8\<rparr> :: nat request"
  have inv: "arena_inv ?a" by (rule arena_inv_new) simp
  have okxs: "\<forall>r \<in> set ?xs. ctype_ok (request_type r)" by (simp add: ctype_ok_2)
  have okr: "ctype_ok (request_type ?r)" by (simp add: ctype_ok_8)
  have 2: "fst (snd (run_requests ?xs (?a, Map.empty))) = \<lparr>m_size = 16, m_buffer = 1000, m_offset = 1002\<rparr>"
    by code_simp
  have 3: "fst (run_request ?r (\<lparr>m_size = 16, m_buffer = 1000, m_offset = 1002\<rparr>, Map.empty :: nat \<rightharpoonup> nat)) = Inr 1008"
    by code_simp
  have 4: "m_offset (fst (snd (run_request ?r
          (\<lparr>m_size = 16, m_buffer = 1000, m_offset = 1002\<rparr>, Map.empty :: nat \<rightharpoonup> nat)))) = 1016"
    by code_simp
  from cursor_never_backward[OF inv okxs okr, of Map.empty] inv 2 3 4 show ?thesis
    by simp
qed

end
